theory Spec2Isabelle
  imports Complex_Main "HOL-Library.Multiset" "HOL-Library.More_List"
begin

section \<open>Errors and outcomes\<close>

text \<open>
  The exceptions the Python source can raise on the paths modelled below. A method that
  mutates its object before it may raise returns an \<open>outcome\<close>, which keeps the state the
  object is left in; the array operations return \<open>error + 'a\<close>.
\<close>

datatype error = ValueError | IndexError | ZeroDivisionError | OverflowError | AttributeError

datatype 'a outcome = Returns 'a | Raises error 'a

fun state_of :: "'a outcome \<Rightarrow> 'a" where
  "state_of (Returns s) = s"
| "state_of (Raises e s) = s"

fun raised :: "'a outcome \<Rightarrow> error option" where
  "raised (Returns s) = None"
| "raised (Raises e s) = Some e"

definition bind_err :: "error + 'a \<Rightarrow> ('a \<Rightarrow> error + 'b) \<Rightarrow> error + 'b" where
  "bind_err m f = (case m of Inl e \<Rightarrow> Inl e | Inr x \<Rightarrow> f x)"

section \<open>Floats with infinities\<close>

text \<open>
  Ranges and points are Python floats, and \<open>_calc_layers_ranges\<close> seeds its fold with
  \<open>inf\<close> and \<open>-inf\<close>. The values are only compared (\<open>min\<close>, \<open>max\<close>, clamping), never
  combined arithmetically, so a float is modelled as a real number or one of the two
  infinities, ordered as Python orders them. NaN is not modelled.
\<close>

datatype ext = MInf | Fin real | PInf

instantiation ext :: linorder
begin

fun less_eq_ext :: "ext \<Rightarrow> ext \<Rightarrow> bool" where
  "less_eq_ext MInf y = True"
| "less_eq_ext (Fin a) MInf = False"
| "less_eq_ext (Fin a) (Fin b) = (a \<le> b)"
| "less_eq_ext (Fin a) PInf = True"
| "less_eq_ext PInf PInf = True"
| "less_eq_ext PInf MInf = False"
| "less_eq_ext PInf (Fin b) = False"

definition less_ext :: "ext \<Rightarrow> ext \<Rightarrow> bool" where
  "less_ext x y = (x \<le> y \<and> \<not> y \<le> x)"

instance
proof
  fix x y z :: ext
  show "(x < y) = (x \<le> y \<and> \<not> y \<le> x)"
    by (simp add: less_ext_def)
  show "x \<le> x"
    by (cases x) simp_all
  show "x \<le> y \<Longrightarrow> y \<le> z \<Longrightarrow> x \<le> z"
    by (cases x; cases y; cases z) simp_all
  show "x \<le> y \<Longrightarrow> y \<le> x \<Longrightarrow> x = y"
    by (cases x; cases y) simp_all
  show "x \<le> y \<or> y \<le> x"
    by (cases x; cases y) auto
qed

end

section \<open>Dims\<close>

text \<open>
  The class \<open>Dims\<close> (\<open>napari/components/dims.py\<close>) is used by every function below but is
  not among the source files. Its state and its setters are modelled from section 3 and
  section 4.1 of the specification. The record keeps the log of the change notifications
  the object has emitted, so that a setter that notifies is distinguishable from one that
  does not.
\<close>

datatype event = Ev_order | Ev_ndisplay | Ev_axis nat | Ev_range nat | Ev_ndim

record dims =
  ndim :: nat
  drange :: "(ext \<times> ext \<times> ext) list"
  point :: "ext list"
  order :: "nat list"
  ndisplay :: nat
  emitted :: "event list"

text \<open>The invariants section 3 of the specification states for a \<open>Dims\<close>.\<close>

definition is_perm :: "nat \<Rightarrow> nat list \<Rightarrow> bool" where
  "is_perm n xs = (sort xs = [0..<n])"

definition dims_ok :: "dims \<Rightarrow> bool" where
  "dims_ok d = (length (drange d) = ndim d \<and> length (point d) = ndim d \<and>
     is_perm (ndim d) (order d) \<and> (ndisplay d = 2 \<or> ndisplay d = 3))"

text \<open>
  Modelled from the spec: \<open>Dims.set_point\<close>, \<open>Dims.set_range\<close> and the setters of
  \<open>order\<close>, \<open>ndisplay\<close> and \<open>ndim\<close>, whose code is missing. Section 4.1: \<open>set_point\<close>
  "clamps value to [min,max] for that axis before storing; no-op (no notification) if
  unchanged"; \<open>set_range\<close> "replaces an axis's range; if point[axis] now falls outside,
  clamp it; fails with IndexError-kind if axis out of bounds"; the \<open>ndisplay\<close> setter
  "accepts only 2 or 3; changing it [...] signals dependents to re-slice; invalid values
  signal a ValueError-kind error"; the \<open>order\<close> setter "validates the argument is a
  permutation of range(ndim); rejects otherwise"; the \<open>ndim\<close> setter: "growing ndim
  appends new axes with default range (0,0,0) at the front [...] and extends order/point
  accordingly; shrinking truncates from the front, preserving trailing semantics".
  Notifications are emitted "only on actual change, compared by value" (section 9).
\<close>

definition clamp :: "ext \<times> ext \<times> ext \<Rightarrow> ext \<Rightarrow> ext" where
  "clamp r v = (case r of (lo, hi, st) \<Rightarrow> min hi (max lo v))"

definition set_point :: "dims \<Rightarrow> nat \<Rightarrow> ext \<Rightarrow> error + dims" where
  "set_point d axis v =
     (if \<not> axis < ndim d then Inl IndexError
      else let v' = clamp (drange d ! axis) v in
        if point d ! axis = v' then Inr d
        else Inr (d\<lparr>point := (point d)[axis := v'], emitted := emitted d @ [Ev_axis axis]\<rparr>))"

definition set_range :: "dims \<Rightarrow> nat \<Rightarrow> ext \<times> ext \<times> ext \<Rightarrow> error + dims" where
  "set_range d axis r =
     (if \<not> axis < ndim d then Inl IndexError
      else let p = point d ! axis; p' = clamp r p in
        Inr (d\<lparr>drange := (drange d)[axis := r], point := (point d)[axis := p'],
               emitted := emitted d @ (if drange d ! axis = r then [] else [Ev_range axis])
                 @ (if p' = p then [] else [Ev_axis axis])\<rparr>))"

definition set_ndisplay :: "dims \<Rightarrow> nat \<Rightarrow> error + dims" where
  "set_ndisplay d n =
     (if n \<noteq> 2 \<and> n \<noteq> 3 then Inl ValueError
      else if n = ndisplay d then Inr d
      else Inr (d\<lparr>ndisplay := n, emitted := emitted d @ [Ev_ndisplay]\<rparr>))"

definition set_order :: "dims \<Rightarrow> nat list \<Rightarrow> error + dims" where
  "set_order d ord =
     (if \<not> is_perm (ndim d) ord then Inl ValueError
      else if ord = order d then Inr d
      else Inr (d\<lparr>order := ord, emitted := emitted d @ [Ev_order]\<rparr>))"

definition set_ndim :: "dims \<Rightarrow> nat \<Rightarrow> dims" where
  "set_ndim d n =
     (if n = ndim d then d
      else if ndim d < n then
        (let k = n - ndim d in
         d\<lparr>ndim := n, drange := replicate k (Fin 0, Fin 0, Fin 0) @ drange d,
           point := replicate k (Fin 0) @ point d,
           order := [0..<k] @ map (\<lambda>ax. ax + k) (order d),
           emitted := emitted d @ [Ev_ndim]\<rparr>)
      else
        (let k = ndim d - n in
         d\<lparr>ndim := n, drange := drop k (drange d), point := drop k (point d),
           order := map (\<lambda>ax. ax - k) (filter (\<lambda>ax. k \<le> ax) (order d)),
           emitted := emitted d @ [Ev_ndim]\<rparr>))"

section \<open>Layers and the viewer model\<close>

text \<open>
  \<open>ViewerModel\<close> (\<open>napari/components/viewer_model.py\<close>) reads of a layer its rank
  \<open>layer.ndim\<close>, its own \<open>layer.dims\<close>, \<open>layer.selected\<close> and the four presentation
  attributes it mirrors. The viewer's own fields carry the prefix \<open>v\<close>. Observers of the
  viewer's and the layers' events are outside the model: each function below is the body
  of the method, run to completion.
\<close>

record layer =
  layer_name :: string
  layer_ndim :: nat
  layer_dims :: dims
  layer_selected :: bool
  layer_status :: string
  layer_help :: string
  layer_cursor :: string
  layer_interactive :: bool

record viewer =
  vdims :: dims
  layers :: "layer list"
  vstatus :: string
  vhelp :: string
  vcursor :: string
  vinteractive :: bool
  active_layer :: "layer option"

subsection \<open>The viewer's property setters\<close>

definition status_set :: "viewer \<Rightarrow> string \<Rightarrow> viewer" where
  "status_set v st = (if st = vstatus v then v else v\<lparr>vstatus := st\<rparr>)"

definition help_set :: "viewer \<Rightarrow> string \<Rightarrow> viewer" where
  "help_set v h = (if h = vhelp v then v else v\<lparr>vhelp := h\<rparr>)"

definition cursor_set :: "viewer \<Rightarrow> string \<Rightarrow> viewer" where
  "cursor_set v c = (if c = vcursor v then v else v\<lparr>vcursor := c\<rparr>)"

definition interactive_set :: "viewer \<Rightarrow> bool \<Rightarrow> viewer" where
  "interactive_set v b = (if b = vinteractive v then v else v\<lparr>vinteractive := b\<rparr>)"

definition active_layer_set :: "viewer \<Rightarrow> layer option \<Rightarrow> viewer" where
  "active_layer_set v a = (if a = active_layer v then v else v\<lparr>active_layer := a\<rparr>)"

subsection \<open>\<open>_update_active_layer\<close>\<close>

text \<open>
  The loop of \<open>_update_active_layer\<close>: the first selected layer becomes the candidate, a
  second selected layer resets the candidate to \<open>None\<close> and leaves the loop.
\<close>

fun find_active :: "layer option \<Rightarrow> layer list \<Rightarrow> layer option" where
  "find_active a [] = a"
| "find_active a (l # ls) =
     (if a = None \<and> layer_selected l then find_active (Some l) ls
      else if a \<noteq> None \<and> layer_selected l then None
      else find_active a ls)"

definition update_active_layer :: "viewer \<Rightarrow> viewer" where
  "update_active_layer v =
     (case find_active None (layers v) of
        None \<Rightarrow>
          active_layer_set
            (interactive_set (cursor_set (help_set (status_set v ''Ready'') '''') ''standard'') True)
            None
      | Some l \<Rightarrow>
          active_layer_set
            (interactive_set
              (cursor_set (help_set (status_set v (layer_status l)) (layer_help l)) (layer_cursor l))
              (layer_interactive l))
            (Some l))"

section \<open>n-dimensional arrays\<close>

text \<open>
  A NumPy array is its shape together with the value of every cell; only the cells
  inside the shape are meaningful. Label values are Python integers.
\<close>

record ndarray =
  shape :: "nat list"
  cell :: "nat list \<Rightarrow> int"

definition in_bounds :: "nat list \<Rightarrow> nat list \<Rightarrow> bool" where
  "in_bounds sh idx = list_all2 (\<lambda>i n. i < n) idx sh"

section \<open>The Labels layer\<close>

text \<open>
  The state of a \<open>Labels\<close> layer (\<open>napari/layers/labels/labels.py\<close>) that the editing
  operations read and write. \<open>coordinates\<close>, \<open>scale_factor\<close> and \<open>cursor_size\<close> are
  attributes of the base class \<open>Layer\<close>; \<open>data_labels\<close> is \<open>_data_labels\<close>, the displayed
  slice.
\<close>

type_synonym rgba = "real \<times> real \<times> real \<times> real"

record labels =
  data :: ndarray
  data_labels :: ndarray
  dims :: dims
  n_dimensional :: bool
  contiguous :: bool
  brush_size :: int
  seed :: real
  selected_label :: int
  selected_color :: "rgba option"
  coordinates :: "real list"
  scale_factor :: real
  cursor_size :: real

text \<open>\<open>_get_ndim\<close>: the rank of the data, which is what \<open>self.ndim\<close> reads.\<close>

definition get_ndim :: "labels \<Rightarrow> nat" where
  "get_ndim s = length (shape (data s))"

subsection \<open>\<open>selected_label\<close> and \<open>brush_size\<close>\<close>

text \<open>
  \<open>get_color\<close> maps a label through the colormap, which is not among the source files:
  \<open>cmap\<close> stands for the composition of \<open>_raw_to_displayed\<close> (it depends on the seed) and
  the colormap's \<open>map\<close>.
\<close>

definition get_color :: "(real \<Rightarrow> int \<Rightarrow> rgba) \<Rightarrow> labels \<Rightarrow> int \<Rightarrow> rgba option" where
  "get_color cmap s label = (if label = 0 then None else Some (cmap (seed s) label))"

definition selected_label_set :: "(real \<Rightarrow> int \<Rightarrow> rgba) \<Rightarrow> labels \<Rightarrow> int \<Rightarrow> labels outcome" where
  "selected_label_set cmap s v =
     (if v < 0 then Raises ValueError s
      else if v = selected_label s then Returns s
      else Returns (s\<lparr>selected_label := v, selected_color := get_color cmap s v\<rparr>))"

text \<open>Python's \<open>int(x)\<close> on a finite float: truncation towards zero.\<close>

definition py_int :: "real \<Rightarrow> int" where
  "py_int x = (if 0 \<le> x then \<lfloor>x\<rfloor> else \<lceil>x\<rceil>)"

text \<open>
  The \<open>brush_size\<close> setter stores \<open>int(brush_size)\<close> first; the division that follows
  raises when the scale factor is zero, after the store.
\<close>

definition brush_size_set :: "labels \<Rightarrow> real \<Rightarrow> labels outcome" where
  "brush_size_set s v =
     (let s1 = s\<lparr>brush_size := py_int v\<rparr> in
      if scale_factor s1 = 0 then Raises ZeroDivisionError s1
      else Returns (s1\<lparr>cursor_size := real_of_int (brush_size s1) / scale_factor s1\<rparr>))"

subsection \<open>\<open>_update_layers\<close>\<close>

text \<open>
  Python's list indexing: a negative index counts from the end, an index outside the list
  raises \<open>IndexError\<close>.
\<close>

definition py_index :: "'a list \<Rightarrow> int \<Rightarrow> error + 'a" where
  "py_index xs i =
     (if 0 \<le> i \<and> i < int (length xs) then Inr (xs ! nat i)
      else if i < 0 \<and> 0 \<le> int (length xs) + i then Inr (xs ! nat (int (length xs) + i))
      else Inl IndexError)"

text \<open>
  The order \<open>_update_layers\<close> computes for a layer from the global order: with
  \<open>offset \<le> 0\<close> it is \<open>list(range(-offset)) + list(order - offset)\<close>, otherwise
  \<open>list(order[order >= offset] - offset)\<close>.
\<close>

definition layer_order :: "dims \<Rightarrow> dims \<Rightarrow> nat list" where
  "layer_order gd ld =
     (let offset = int (ndim gd) - int (ndim ld) in
      if offset \<le> 0 then [0..<nat (- offset)] @ map (\<lambda>ax. nat (int ax - offset)) (order gd)
      else map (\<lambda>ax. nat (int ax - offset)) (filter (\<lambda>ax. offset \<le> int ax) (order gd)))"

text \<open>The loop over \<open>range(layer.dims.ndim)\<close> that pushes the global point into the layer.\<close>

fun push_points :: "dims \<Rightarrow> int \<Rightarrow> nat list \<Rightarrow> dims \<Rightarrow> error + dims" where
  "push_points gd offset [] ld = Inr ld"
| "push_points gd offset (axis # axes) ld =
     bind_err (py_index (point gd) (int axis + offset)) (\<lambda>p.
     bind_err (set_point ld axis p) (push_points gd offset axes))"

text \<open>The body of the loop over the layers, and the loop itself.\<close>

definition update_layer :: "dims \<Rightarrow> layer \<Rightarrow> error + layer" where
  "update_layer gd l =
     (let offset = int (ndim gd) - int (ndim (layer_dims l)) in
      bind_err (set_order (layer_dims l) (layer_order gd (layer_dims l))) (\<lambda>d1.
      bind_err (set_ndisplay d1 (ndisplay gd)) (\<lambda>d2.
      bind_err (push_points gd offset [0..<ndim d2] d2) (\<lambda>d3.
      Inr (l\<lparr>layer_dims := d3\<rparr>)))))"

fun update_each :: "dims \<Rightarrow> layer list \<Rightarrow> error + layer list" where
  "update_each gd [] = Inr []"
| "update_each gd (l # ls) =
     bind_err (update_layer gd l) (\<lambda>l'.
     bind_err (update_each gd ls) (\<lambda>ls'. Inr (l' # ls')))"

text \<open>
  \<open>_update_layers\<close> runs the body above on each of the layers it is given. Called with
  no argument, as the handlers of the viewer's dims events call it, these are all the
  layers of the viewer, which is the call modelled here; \<open>add_layer\<close> calls it with the
  one layer it has appended (line 330), which runs the same body on that layer alone.
\<close>

definition update_layers :: "viewer \<Rightarrow> error + viewer" where
  "update_layers v = bind_err (update_each (vdims v) (layers v)) (\<lambda>ls. Inr (v\<lparr>layers := ls\<rparr>))"

text \<open>
  The invariants of a viewer: its own \<open>Dims\<close> and every layer's are well formed, a layer's
  \<open>ndim\<close> is the rank of its \<open>Dims\<close>, and no layer has more axes than the viewer.
\<close>

definition viewer_ok :: "viewer \<Rightarrow> bool" where
  "viewer_ok v = (dims_ok (vdims v) \<and>
     list_all (\<lambda>l. dims_ok (layer_dims l) \<and> layer_ndim l = ndim (layer_dims l) \<and>
        ndim (layer_dims l) \<le> ndim (vdims v)) (layers v))"

subsection \<open>\<open>_on_layers_change\<close>\<close>

text \<open>\<open>_calc_layers_num_dims\<close>: the running maximum of \<open>layer.ndim\<close>, starting from 0.\<close>

definition calc_layers_num_dims :: "layer list \<Rightarrow> nat" where
  "calc_layers_num_dims ls =
     fold (\<lambda>l max_dims. if max_dims < layer_ndim l then layer_ndim l else max_dims) ls 0"

text \<open>\<open>itertools.zip_longest\<close> of two lists with a fill value.\<close>

fun zip_longest :: "'a \<Rightarrow> 'a list \<Rightarrow> 'a list \<Rightarrow> ('a \<times> 'a) list" where
  "zip_longest fillvalue [] [] = []"
| "zip_longest fillvalue (x # xs) [] = (x, fillvalue) # zip_longest fillvalue xs []"
| "zip_longest fillvalue [] (y # ys) = (fillvalue, y) # zip_longest fillvalue [] ys"
| "zip_longest fillvalue (x # xs) (y # ys) = (x, y) # zip_longest fillvalue xs ys"

text \<open>
  \<open>_calc_layers_ranges\<close>: starting from \<open>ndims\<close> copies of \<open>(inf, -inf, inf)\<close>, every layer's
  reversed range list is merged in, position by position, and the result is reversed.
\<close>

definition empty_range :: "ext \<times> ext \<times> ext" where
  "empty_range = (PInf, MInf, PInf)"

definition merge_range :: "ext \<times> ext \<times> ext \<Rightarrow> ext \<times> ext \<times> ext \<Rightarrow> ext \<times> ext \<times> ext" where
  "merge_range r q = (case r of (a, c, e) \<Rightarrow> case q of (b, d, f) \<Rightarrow> (min a b, max c d, min e f))"

definition merge_layer :: "layer \<Rightarrow> (ext \<times> ext \<times> ext) list \<Rightarrow> (ext \<times> ext \<times> ext) list" where
  "merge_layer l ranges =
     map (\<lambda>(r, q). merge_range r q)
       (zip_longest empty_range ranges (rev (drange (layer_dims l))))"

definition calc_layers_ranges :: "layer list \<Rightarrow> (ext \<times> ext \<times> ext) list" where
  "calc_layers_ranges ls =
     rev (fold merge_layer ls (replicate (calc_layers_num_dims ls) empty_range))"

text \<open>
  \<open>_on_layers_change\<close>: the global \<open>ndim\<close> becomes the number of ranges, then every range
  is stored with \<open>set_range\<close>.
\<close>

fun set_ranges :: "dims \<Rightarrow> nat \<Rightarrow> (ext \<times> ext \<times> ext) list \<Rightarrow> error + dims" where
  "set_ranges d i [] = Inr d"
| "set_ranges d i (r # rs) = bind_err (set_range d i r) (\<lambda>d'. set_ranges d' (Suc i) rs)"

definition on_layers_change :: "viewer \<Rightarrow> error + viewer" where
  "on_layers_change v =
     (let layer_range = calc_layers_ranges (layers v) in
      bind_err (set_ranges (set_ndim (vdims v) (length layer_range)) 0 layer_range)
        (\<lambda>d. Inr (v\<lparr>vdims := d\<rparr>)))"

subsection \<open>NumPy: rounding, clipping and basic indexing\<close>

text \<open>
  The label data is a NumPy array, and the editing operations are written with NumPy's
  rounding, clipping and indexing, modelled here as NumPy documents them. \<open>np.round\<close>
  rounds to the nearest integer, halves to the even neighbour; \<open>np.clip(x, lo, hi)\<close> is
  \<open>minimum(maximum(x, lo), hi)\<close>. Cursor coordinates are finite floats, taken as reals.
\<close>

definition np_round :: "real \<Rightarrow> int" where
  "np_round x =
     (let f = \<lfloor>x\<rfloor>; r = x - real_of_int f in
      if r < 1 / 2 then f else if 1 / 2 < r then f + 1 else if even f then f else f + 1)"

definition np_clip :: "real \<Rightarrow> real \<Rightarrow> real \<Rightarrow> real" where
  "np_clip x lo hi = min (max x lo) hi"

text \<open>
  One entry of an index tuple: \<open>slice(None)\<close>, \<open>slice(lo, hi, 1)\<close> or an integer. A slice
  bound is clipped to the axis as \<open>slice.indices\<close> does; an integer index counts from the
  end when negative and raises \<open>IndexError\<close> outside \<open>[-n, n)\<close>. \<open>select\<close> gives, axis by
  axis, the positions an index tuple selects; axes the tuple does not mention are taken
  whole, and a tuple longer than the rank raises \<open>IndexError\<close>.
\<close>

datatype ix = Full | Slice int int | Idx int

definition slice_bound :: "nat \<Rightarrow> int \<Rightarrow> nat" where
  "slice_bound n a = (if a < 0 then nat (max 0 (a + int n)) else min (nat a) n)"

fun axis_sel :: "nat \<Rightarrow> ix \<Rightarrow> error + nat list" where
  "axis_sel n Full = Inr [0..<n]"
| "axis_sel n (Slice a b) = Inr [slice_bound n a..<slice_bound n b]"
| "axis_sel n (Idx i) =
     (if 0 \<le> i \<and> i < int n then Inr [nat i]
      else if i < 0 \<and> 0 \<le> int n + i then Inr [nat (int n + i)]
      else Inl IndexError)"

fun select :: "nat list \<Rightarrow> ix list \<Rightarrow> error + nat list list" where
  "select [] [] = Inr []"
| "select [] (i # is) = Inl IndexError"
| "select (n # ns) [] = bind_err (select ns []) (\<lambda>ps. Inr ([0..<n] # ps))"
| "select (n # ns) (i # is) =
     bind_err (axis_sel n i) (\<lambda>p. bind_err (select ns is) (\<lambda>ps. Inr (p # ps)))"

definition selected :: "nat list list \<Rightarrow> nat list \<Rightarrow> bool" where
  "selected ps idx = list_all2 (\<lambda>i p. i \<in> set p) idx ps"

text \<open>
  \<open>a[specs]\<close>: the axes indexed by an integer disappear from the result (\<open>kept\<close>), and
  \<open>embed\<close> maps an index of the result back to the index of the cell it reads.
\<close>

fun kept :: "ix list \<Rightarrow> 'a list \<Rightarrow> 'a list" where
  "kept (Idx i # is) (x # xs) = kept is xs"
| "kept (s # is) (x # xs) = x # kept is xs"
| "kept [] xs = xs"
| "kept is [] = []"

fun embed :: "ix list \<Rightarrow> nat list list \<Rightarrow> nat list \<Rightarrow> nat list" where
  "embed (Idx i # is) (p # ps) j = hd p # embed is ps j"
| "embed (s # is) (p # ps) (x # j) = (p ! x) # embed is ps j"
| "embed [] (p # ps) (x # j) = (p ! x) # embed [] ps j"
| "embed is ps j = []"

definition getitem :: "ndarray \<Rightarrow> ix list \<Rightarrow> error + ndarray" where
  "getitem a specs =
     bind_err (select (shape a) specs) (\<lambda>ps.
       Inr \<lparr>shape = map length (kept specs ps), cell = (\<lambda>j. cell a (embed specs ps j))\<rparr>)"

text \<open>\<open>a[specs] = v\<close> for a scalar \<open>v\<close>: every selected cell is overwritten.\<close>

definition setitem_scalar :: "ndarray \<Rightarrow> ix list \<Rightarrow> int \<Rightarrow> error + ndarray" where
  "setitem_scalar a specs v =
     bind_err (select (shape a) specs) (\<lambda>ps.
       Inr (a\<lparr>cell := (\<lambda>idx. if selected ps idx then v else cell a idx)\<rparr>))"

text \<open>
  \<open>a.transpose(axes)\<close>: axis \<open>k\<close> of the result is axis \<open>axes[k]\<close> of \<open>a\<close>; \<open>axes\<close> must be
  a permutation of the axes of \<open>a\<close>.
\<close>

definition index_of :: "nat list \<Rightarrow> nat \<Rightarrow> nat" where
  "index_of xs m = length (takeWhile (\<lambda>x. x \<noteq> m) xs)"

definition transpose_nd :: "ndarray \<Rightarrow> nat list \<Rightarrow> error + ndarray" where
  "transpose_nd a axes =
     (if is_perm (length (shape a)) axes
      then Inr \<lparr>shape = map (\<lambda>k. shape a ! k) axes,
                cell = (\<lambda>j. cell a (map (\<lambda>m. j ! index_of axes m) [0..<length axes]))\<rparr>
      else Inl ValueError)"

text \<open>\<open>xs[ds]\<close> for a list of axis numbers, as in \<open>coord[self.dims.displayed]\<close>.\<close>

fun pick :: "'a list \<Rightarrow> nat list \<Rightarrow> error + 'a list" where
  "pick xs [] = Inr []"
| "pick xs (d # ds) =
     (if d < length xs then bind_err (pick xs ds) (\<lambda>r. Inr (xs ! d # r)) else Inl IndexError)"

subsection \<open>The derived attributes of Dims\<close>

text \<open>
  Modelled from the spec: \<open>Dims.displayed\<close>, \<open>Dims.not_displayed\<close>, \<open>Dims.indices\<close> and
  \<open>Dims.displayed_order\<close>, whose code is missing. Section 3: "displayed = last ndisplay
  entries of order; not_displayed = the rest; indices = a per-axis index/slice
  specification built by rounding point to integer for non-displayed axes and taking a
  full slice for displayed axes". Section 4.3: the slice is transposed "so that axes
  appear in dims.displayed order", so \<open>displayed_order\<close> is the rank of each displayed axis
  among the displayed axes. An infinite point cannot be rounded to an integer.
\<close>

definition displayed :: "dims \<Rightarrow> nat list" where
  "displayed d = drop (length (order d) - ndisplay d) (order d)"

definition not_displayed :: "dims \<Rightarrow> nat list" where
  "not_displayed d = take (length (order d) - ndisplay d) (order d)"

definition displayed_order :: "dims \<Rightarrow> nat list" where
  "displayed_order d = map (\<lambda>a. length (filter (\<lambda>b. b < a) (displayed d))) (displayed d)"

fun round_point :: "ext \<Rightarrow> error + int" where
  "round_point (Fin x) = Inr (np_round x)"
| "round_point MInf = Inl OverflowError"
| "round_point PInf = Inl OverflowError"

fun indices_of :: "dims \<Rightarrow> nat list \<Rightarrow> error + ix list" where
  "indices_of d [] = Inr []"
| "indices_of d (axis # axes) =
     bind_err (if axis \<in> set (displayed d) then Inr Full
               else bind_err (round_point (point d ! axis)) (\<lambda>i. Inr (Idx i))) (\<lambda>x.
     bind_err (indices_of d axes) (\<lambda>xs. Inr (x # xs)))"

definition indices :: "dims \<Rightarrow> error + ix list" where
  "indices d = indices_of d [0..<ndim d]"

subsection \<open>Slicing, \<open>get_value\<close> and \<open>paint\<close>\<close>

text \<open>
  \<open>_set_view_slice\<close> recomputes \<open>_data_labels\<close> from the data. The displayed image, the
  thumbnail and the cursor bookkeeping it also refreshes are presentation and are not
  modelled. \<open>self.shape\<close> is the shape of the data (\<open>_get_extent\<close>).
\<close>

definition set_view_slice :: "labels \<Rightarrow> error + labels" where
  "set_view_slice s =
     bind_err (indices (dims s)) (\<lambda>ix.
     bind_err (getitem (data s) ix) (\<lambda>a.
     bind_err (transpose_nd a (displayed_order (dims s))) (\<lambda>v.
     Inr (s\<lparr>data_labels := v\<rparr>))))"

text \<open>
  \<open>get_value\<close>: the value is an array of rank 0 when the index is complete, and \<open>None\<close>
  when a rounded coordinate is outside the slice.
\<close>

definition get_value :: "labels \<Rightarrow> error + ndarray option" where
  "get_value s =
     (let coord = map np_round (coordinates s); shape = shape (data_labels s) in
      bind_err (pick coord (displayed (dims s))) (\<lambda>cd.
        if list_all (\<lambda>(c, n). 0 \<le> c \<and> c < int n) (zip cd shape)
        then bind_err (getitem (data_labels s) (map Idx cd)) (\<lambda>value. Inr (Some value))
        else Inr None))"

text \<open>
  \<open>paint\<close>. \<open>brush_slice\<close> is the slice built for one axis; \<open>paint_index\<close> is
  \<open>slice_coord\<close>, built for all axes from \<open>zip(coord, self.shape)\<close> when the layer is
  n-dimensional or the data has two axes, and otherwise by the two loops over the
  displayed and the non-displayed axes, starting from \<open>[0] * self.ndim\<close>. \<open>paint_write\<close>
  is the data after the assignment \<open>self.data[slice_coord] = new_label\<close>, and \<open>paint\<close>
  ends with the re-slice.
\<close>

definition brush_slice :: "int \<Rightarrow> real \<Rightarrow> nat \<Rightarrow> ix" where
  "brush_slice bs c n =
     Slice (np_round (np_clip (c - real_of_int bs / 2 + 1 / 2) 0 (real n)))
           (np_round (np_clip (c + real_of_int bs / 2 + 1 / 2) 0 (real n)))"

fun paint_displayed :: "labels \<Rightarrow> real list \<Rightarrow> nat list \<Rightarrow> ix list \<Rightarrow> error + ix list" where
  "paint_displayed s coord [] slice_coord = Inr slice_coord"
| "paint_displayed s coord (i # is) slice_coord =
     (if i < length coord \<and> i < length (shape (data s)) \<and> i < length slice_coord
      then paint_displayed s coord is
             (slice_coord[i := brush_slice (brush_size s) (coord ! i) (shape (data s) ! i)])
      else Inl IndexError)"

fun paint_pinned :: "real list \<Rightarrow> nat list \<Rightarrow> ix list \<Rightarrow> error + ix list" where
  "paint_pinned coord [] slice_coord = Inr slice_coord"
| "paint_pinned coord (i # is) slice_coord =
     (if i < length coord \<and> i < length slice_coord
      then paint_pinned coord is (slice_coord[i := Idx (np_round (coord ! i))])
      else Inl IndexError)"

definition paint_index :: "labels \<Rightarrow> real list \<Rightarrow> error + ix list" where
  "paint_index s coord =
     (if n_dimensional s \<or> get_ndim s = 2
      then Inr (map (\<lambda>(c, n). brush_slice (brush_size s) c n) (zip coord (shape (data s))))
      else bind_err (paint_displayed s coord (displayed (dims s)) (replicate (get_ndim s) (Idx 0)))
             (paint_pinned coord (not_displayed (dims s))))"

definition paint_write :: "labels \<Rightarrow> real list \<Rightarrow> int \<Rightarrow> error + ndarray" where
  "paint_write s coord new_label =
     bind_err (paint_index s coord) (\<lambda>slice_coord. setitem_scalar (data s) slice_coord new_label)"

definition paint :: "labels \<Rightarrow> real list \<Rightarrow> int \<Rightarrow> error + labels" where
  "paint s coord new_label =
     bind_err (paint_write s coord new_label) (\<lambda>a. set_view_slice (s\<lparr>data := a\<rparr>))"

text \<open>A slice whose bounds lie between 0 and the length of its axis.\<close>

definition slice_clipped :: "ix \<times> nat \<Rightarrow> bool" where
  "slice_clipped = (\<lambda>(i, n). case i of
       Slice lo hi \<Rightarrow> 0 \<le> lo \<and> lo \<le> int n \<and> 0 \<le> hi \<and> hi \<le> int n
     | Full \<Rightarrow> True | Idx k \<Rightarrow> True)"

subsection \<open>\<open>scipy.ndimage.label\<close> and \<open>fill\<close>\<close>

text \<open>
  \<open>ndi.label(input)\<close> with the default structuring element, modelled as SciPy documents
  it: the features are the connected components of the true cells, two cells being
  adjacent when they differ by one along exactly one axis (4 neighbours in two
  dimensions, 6 in three); the features are numbered from 1 in the raster order of their
  first cells, every other cell is 0, and the number of features is returned as well.
  \<open>component U c\<close> collects the cells of \<open>U\<close> reachable from \<open>c\<close>, in raster order:
  a component has at most \<open>length U\<close> cells, so \<open>length U\<close> rounds of growth exhaust it.
\<close>

fun all_indices :: "nat list \<Rightarrow> nat list list" where
  "all_indices [] = [[]]"
| "all_indices (n # ns) = concat (map (\<lambda>i. map ((#) i) (all_indices ns)) [0..<n])"

definition adjacent :: "nat list \<Rightarrow> nat list \<Rightarrow> bool" where
  "adjacent c d =
     (length c = length d \<and>
      sum_list (map (\<lambda>(x, y). if x \<le> y then y - x else x - y) (zip c d)) = 1)"

definition grow :: "nat list list \<Rightarrow> nat list list \<Rightarrow> nat list list" where
  "grow U S = filter (\<lambda>d. d \<in> set S \<or> (\<exists>c\<in>set S. adjacent c d)) U"

definition component :: "nat list list \<Rightarrow> nat list \<Rightarrow> nat list list" where
  "component U c = (grow U ^^ length U) [c]"

definition position :: "'a list \<Rightarrow> 'a \<Rightarrow> nat" where
  "position xs m = length (takeWhile (\<lambda>x. x \<noteq> m) xs)"

definition ndi_label :: "nat list \<Rightarrow> (nat list \<Rightarrow> bool) \<Rightarrow> ndarray \<times> nat" where
  "ndi_label sh input =
     (let U = filter input (all_indices sh);
          firsts = filter (\<lambda>c. hd (component U c) = c) U
      in (\<lparr>shape = sh,
            cell = (\<lambda>idx. if idx \<in> set U then 1 + int (position firsts (hd (component U idx)))
                          else 0)\<rparr>,
          length firsts))"

text \<open>
  The connected components as a relation, for stating what \<open>fill\<close> replaces: \<open>linked U\<close>
  links two adjacent cells of \<open>U\<close>, so the component of a cell \<open>c\<close> of \<open>U\<close> is the set of
  cells \<open>(linked U)\<^sup>*\<close> relates to \<open>c\<close>. \<open>grow_set\<close> is one round of growth on sets.
\<close>

definition linked :: "nat list list \<Rightarrow> (nat list \<times> nat list) set" where
  "linked U = {(c, d). c \<in> set U \<and> d \<in> set U \<and> adjacent c d}"

definition grow_set :: "nat list list \<Rightarrow> nat list set \<Rightarrow> nat list set" where
  "grow_set U X = {d \<in> set U. d \<in> X \<or> (\<exists>c\<in>X. adjacent c d)}"

text \<open>
  \<open>_data_labels\<close> is a NumPy view, not a copy: line 360 builds it from the data by basic
  indexing (integers and full slices), \<open>np.asarray\<close> and \<open>transpose\<close>, none of which copies
  an array, so a cell of \<open>_data_labels\<close> is a cell of the data and an assignment into
  \<open>_data_labels\<close> changes the data. \<open>view_cells\<close> gives, for the slice \<open>_set_view_slice\<close>
  makes under the layer's dims, the cell of the data behind each cell of the slice (the
  same composition of \<open>embed\<close> and the transposition as in \<open>set_view_slice\<close>); the layer
  re-slices whenever its data or its dims change, so this is the view \<open>fill\<close> finds.
  \<open>assign_mask\<close> is \<open>a[msk] = v\<close> on the array itself, and \<open>through_view\<close> is the data
  after \<open>_data_labels[msk] = v\<close>; a layer whose dims admit no slice has no such view, and
  its data are left as they are.
\<close>

definition view_cells :: "labels \<Rightarrow> error + (nat list \<Rightarrow> nat list)" where
  "view_cells s =
     bind_err (indices (dims s)) (\<lambda>ix.
     bind_err (select (shape (data s)) ix) (\<lambda>ps.
       let axes = displayed_order (dims s) in
       if is_perm (length (kept ix ps)) axes
       then Inr (\<lambda>j. embed ix ps (map (\<lambda>m. j ! index_of axes m) [0..<length axes]))
       else Inl ValueError))"

definition assign_mask :: "ndarray \<Rightarrow> (nat list \<Rightarrow> bool) \<Rightarrow> int \<Rightarrow> ndarray" where
  "assign_mask a msk v =
     a\<lparr>cell := (\<lambda>idx. if in_bounds (shape a) idx \<and> msk idx then v else cell a idx)\<rparr>"

definition through_view :: "labels \<Rightarrow> (nat list \<Rightarrow> bool) \<Rightarrow> int \<Rightarrow> ndarray" where
  "through_view s msk v =
     (case view_cells s of
        Inl e \<Rightarrow> data s
      | Inr loc \<Rightarrow>
          (data s)\<lparr>cell := (\<lambda>idx.
             if idx \<in> set (map loc (filter msk (all_indices (shape (data_labels s)))))
             then v else cell (data s) idx)\<rparr>)"

text \<open>
  \<open>fill\<close>. \<open>fill_scope\<close> is the array the edit works on and the coordinate of the clicked
  pixel in it (lines 387 to 394): the data and the whole rounded coordinate when the layer
  is n-dimensional or the data has two axes, otherwise \<open>_data_labels\<close> and the displayed
  entries of the coordinate. \<open>scope_cells\<close> is the cell of the data behind each cell of
  that array, and \<open>pixel_at\<close> the pixel a coordinate with one integer for each axis
  addresses in an array of the given shape (a negative integer counts from the end), if
  there is one. \<open>fill_matches\<close> is the mask after the \<open>contiguous\<close> block:
  \<open>labels == old_label\<close>, restricted to the feature of \<open>slice_coord\<close> when the layer is
  contiguous and there is not exactly one feature (\<open>labeled_matches[slice_coord]\<close> is
  compared with broadcasting when the coordinate has fewer entries than the array has
  axes).
\<close>

definition pixel_at :: "nat list \<Rightarrow> int list \<Rightarrow> nat list option" where
  "pixel_at sh coord =
     (if length coord = length sh
      then (case select sh (map Idx coord) of Inl e \<Rightarrow> None | Inr ps \<Rightarrow> Some (map hd ps))
      else None)"

definition fill_scope :: "labels \<Rightarrow> int list \<Rightarrow> error + ndarray \<times> int list" where
  "fill_scope s int_coord =
     (if n_dimensional s \<or> get_ndim s = 2 then Inr (data s, int_coord)
      else bind_err (pick int_coord (displayed (dims s))) (\<lambda>sc. Inr (data_labels s, sc)))"

definition scope_cells :: "labels \<Rightarrow> error + (nat list \<Rightarrow> nat list)" where
  "scope_cells s = (if n_dimensional s \<or> get_ndim s = 2 then Inr (\<lambda>j. j) else view_cells s)"

definition fill_matches :: "labels \<Rightarrow> ndarray \<Rightarrow> int list \<Rightarrow> int \<Rightarrow> error + (nat list \<Rightarrow> bool)" where
  "fill_matches s labels slice_coord old_label =
     (let matches = (\<lambda>idx. cell labels idx = old_label) in
      if contiguous s then
        (case ndi_label (shape labels) matches of (labeled_matches, num_features) \<Rightarrow>
           if num_features \<noteq> 1 then
             bind_err (getitem labeled_matches (map Idx slice_coord)) (\<lambda>match_label.
               Inr (\<lambda>idx. matches idx \<and>
                      cell labeled_matches idx = cell match_label (drop (length slice_coord) idx)))
           else Inr matches)
      else Inr matches)"

text \<open>
  Modelled from the spec: the attributes of the base class \<open>Layer\<close>, whose code is
  missing. Section 3 gives a layer the attributes \<open>data\<close>, \<open>ndim\<close>, \<open>dims\<close>, the display
  attributes, \<open>selected\<close>, \<open>status\<close>, \<open>help\<close>, \<open>cursor\<close> and \<open>mode\<close>; \<open>indices\<close> is a
  derived attribute of its \<open>Dims\<close>, which line 360 reads as \<open>self.dims.indices\<close>, and no
  attribute of the layer. Line 411 reads \<open>self.indices\<close>: the attribute lookup raises
  \<open>AttributeError\<close>, after the assignment of line 407 has changed the data through the
  view and before the re-slice of line 413. With the whole volume in scope line 411 is
  skipped and the call ends with the re-slice; when that raises, the data keep the edit.
\<close>

definition fill :: "labels \<Rightarrow> real list \<Rightarrow> int \<Rightarrow> int \<Rightarrow> labels outcome" where
  "fill s coord old_label new_label =
     (case fill_scope s (map np_round coord) of
        Inl e \<Rightarrow> Raises e s
      | Inr (labels, slice_coord) \<Rightarrow>
          (case fill_matches s labels slice_coord old_label of
             Inl e \<Rightarrow> Raises e s
           | Inr matches \<Rightarrow>
               if n_dimensional s \<or> get_ndim s = 2
               then (let s1 = s\<lparr>data := assign_mask labels matches new_label\<rparr> in
                     case set_view_slice s1 of Inl e \<Rightarrow> Raises e s1 | Inr s2 \<Rightarrow> Returns s2)
               else Raises AttributeError
                      (s\<lparr>data := through_view s matches new_label,
                         data_labels := assign_mask labels matches new_label\<rparr>)))"

text \<open>Arrays of rank 2 and 3 as nested lists, for stating examples.\<close>

definition to_list2 :: "ndarray \<Rightarrow> int list list" where
  "to_list2 a = map (\<lambda>i. map (\<lambda>j. cell a [i, j]) [0..<shape a ! 1]) [0..<shape a ! 0]"

definition to_list3 :: "ndarray \<Rightarrow> int list list list" where
  "to_list3 a = map (\<lambda>i. map (\<lambda>j. map (\<lambda>k. cell a [i, j, k]) [0..<shape a ! 2]) [0..<shape a ! 1]) [0..<shape a ! 0]"

definition of_list2 :: "int list list \<Rightarrow> ndarray" where
  "of_list2 xss = \<lparr>shape = [length xss, length (hd xss)], cell = (\<lambda>idx. xss ! (idx ! 0) ! (idx ! 1))\<rparr>"

definition of_list3 :: "int list list list \<Rightarrow> ndarray" where
  "of_list3 xsss = \<lparr>shape = [length xsss, length (hd xsss), length (hd (hd xsss))],
     cell = (\<lambda>idx. xsss ! (idx ! 0) ! (idx ! 1) ! (idx ! 2))\<rparr>"

section \<open>Example states\<close>

text \<open>Concrete states on which the theorems below are instantiated.\<close>

definition ex_dims2 :: dims where
  "ex_dims2 = \<lparr>ndim = 2, drange = [(Fin 1, Fin 18, Fin 1), (Fin 2, Fin 19, Fin 1)],
     point = [Fin 1, Fin 2], order = [0, 1], ndisplay = 2, emitted = []\<rparr>"

definition ex_dims3 :: dims where
  "ex_dims3 = \<lparr>ndim = 3,
     drange = [(Fin 0, Fin 6, Fin 1), (Fin 0, Fin 10, Fin 1), (Fin 0, Fin 15, Fin 1)],
     point = [Fin 4, Fin 7, Fin 20], order = [0, 2, 1], ndisplay = 2, emitted = []\<rparr>"

definition ex_image :: layer where
  "ex_image = \<lparr>layer_name = ''image'', layer_ndim = 3, layer_dims = ex_dims3,
     layer_selected = True, layer_status = ''image'', layer_help = [],
     layer_cursor = ''standard'', layer_interactive = True\<rparr>"

definition ex_points :: layer where
  "ex_points = \<lparr>layer_name = ''points'', layer_ndim = 2, layer_dims = ex_dims2,
     layer_selected = False, layer_status = ''pan_zoom'', layer_help = [],
     layer_cursor = ''standard'', layer_interactive = True\<rparr>"

definition ex_viewer :: viewer where
  "ex_viewer = \<lparr>vdims = ex_dims3, layers = [ex_image, ex_points], vstatus = ''image'',
     vhelp = ''help'', vcursor = ''cross'', vinteractive = False, active_layer = None\<rparr>"

text \<open>
  \<open>ex_viewer_union\<close> is a viewer after \<open>_on_layers_change\<close>: an image of shape
  \<open>(6, 10, 15)\<close> and a points layer whose coordinates span \<open>[1, 18]\<close> and \<open>[2, 19]\<close>; the
  global range is the union of the two, and the global point \<open>(4, 0, 1)\<close> lies in it.
\<close>

definition ex_viewer_union :: viewer where
  "ex_viewer_union = ex_viewer\<lparr>vdims := ex_dims3\<lparr>
       drange := [(Fin 0, Fin 6, Fin 1), (Fin 0, Fin 18, Fin 1), (Fin 0, Fin 19, Fin 1)],
       point := [Fin 4, Fin 0, Fin 1]\<rparr>,
     layers := [ex_image\<lparr>layer_dims := ex_dims3\<lparr>point := [Fin 4, Fin 0, Fin 1]\<rparr>\<rparr>, ex_points]\<rparr>"

definition ex_cmap :: "real \<Rightarrow> int \<Rightarrow> rgba" where
  "ex_cmap sd l = (sd, real_of_int l / 50, 0, 1)"

definition ex_labels :: labels where
  "ex_labels = \<lparr>data = \<lparr>shape = [2, 3], cell = (\<lambda>idx. [[1, 1, 0], [1, 0, 0]] ! (idx ! 0) ! (idx ! 1))\<rparr>,
     data_labels = \<lparr>shape = [2, 3], cell = (\<lambda>idx. [[1, 1, 0], [1, 0, 0]] ! (idx ! 0) ! (idx ! 1))\<rparr>,
     dims = \<lparr>ndim = 2, drange = [(Fin 0, Fin 2, Fin 1), (Fin 0, Fin 3, Fin 1)],
       point = [Fin 0, Fin 0], order = [0, 1], ndisplay = 2, emitted = []\<rparr>,
     n_dimensional = False, contiguous = True, brush_size = 10, seed = 1 / 2,
     selected_label = 3, selected_color = None, coordinates = [0, 0], scale_factor = 1,
     cursor_size = 10\<rparr>"

text \<open>
  \<open>ex_row\<close> is the label image \<open>[[1, 0, 1]]\<close>. \<open>ex_volume\<close> is a label volume of shape
  \<open>(1, 2, 2)\<close> viewed with the axis order \<open>[0, 2, 1]\<close> (as \<open>test_nD_labels\<close> sets it), so
  that its displayed slice \<open>[[1, 0], [3, 0]]\<close> is the transpose of \<open>data[0]\<close>;
  \<open>ex_volume_wide\<close> is the same with a slice that is not square. \<open>ex_stack\<close> is a label
  volume of shape \<open>(2, 1, 2)\<close> with one pixel of label 1 in each of its two slices, viewed
  at the first slice, \<open>[[1, 0]]\<close>.
\<close>

definition ex_row :: labels where
  "ex_row = ex_labels\<lparr>data := of_list2 [[1, 0, 1]], data_labels := of_list2 [[1, 0, 1]],
     dims := (dims ex_labels)\<lparr>drange := [(Fin 0, Fin 1, Fin 1), (Fin 0, Fin 3, Fin 1)]\<rparr>\<rparr>"

definition ex_volume :: labels where
  "ex_volume = ex_labels\<lparr>data := of_list3 [[[1, 3], [0, 0]]],
     data_labels := of_list2 [[1, 0], [3, 0]],
     dims := \<lparr>ndim = 3, drange = [(Fin 0, Fin 1, Fin 1), (Fin 0, Fin 2, Fin 1), (Fin 0, Fin 2, Fin 1)],
       point = [Fin 0, Fin 0, Fin 0], order = [0, 2, 1], ndisplay = 2, emitted = []\<rparr>,
     coordinates := [0, 0, 0]\<rparr>"

definition ex_volume_wide :: labels where
  "ex_volume_wide = ex_volume\<lparr>data := of_list3 [[[1, 3, 0], [0, 0, 1]]],
     data_labels := of_list2 [[1, 0], [3, 0], [0, 1]],
     dims := (dims ex_volume)\<lparr>drange := [(Fin 0, Fin 1, Fin 1), (Fin 0, Fin 2, Fin 1), (Fin 0, Fin 3, Fin 1)]\<rparr>\<rparr>"

definition ex_stack :: labels where
  "ex_stack = ex_labels\<lparr>data := of_list3 [[[1, 0]], [[0, 1]]],
     data_labels := of_list2 [[1, 0]],
     dims := \<lparr>ndim = 3, drange = [(Fin 0, Fin 2, Fin 1), (Fin 0, Fin 1, Fin 1), (Fin 0, Fin 2, Fin 1)],
       point = [Fin 0, Fin 0, Fin 0], order = [0, 1, 2], ndisplay = 2, emitted = []\<rparr>,
     coordinates := [0, 0, 0]\<rparr>"

section \<open>The active layer\<close>

lemma find_active_Some:
  "find_active (Some a) ls = (if filter layer_selected ls = [] then Some a else None)"
  by (induction ls) auto

lemma find_active_None:
  "find_active None ls =
     (case filter layer_selected ls of [] \<Rightarrow> None | [l] \<Rightarrow> Some l | l # l' # r \<Rightarrow> None)"
proof (induction ls)
  case Nil
  show ?case by simp
next
  case (Cons x xs)
  show ?case
  proof (cases "layer_selected x")
    case True
    then show ?thesis
      by (simp add: find_active_Some split: list.splits)
  next
    case False
    then show ?thesis
      using Cons.IH by simp
  qed
qed

lemma viewer_setters_fields [simp]:
  "vstatus (status_set v st) = st"
  "vhelp (help_set v h) = h"
  "vcursor (cursor_set v c) = c"
  "vinteractive (interactive_set v b) = b"
  "active_layer (active_layer_set v a) = a"
  by (simp_all add: status_set_def help_set_def cursor_set_def interactive_set_def
      active_layer_set_def)

lemma viewer_setters_frame [simp]:
  "vstatus (help_set v h) = vstatus v"
  "vstatus (cursor_set v c) = vstatus v"
  "vstatus (interactive_set v b) = vstatus v"
  "vstatus (active_layer_set v a) = vstatus v"
  "vhelp (cursor_set v c) = vhelp v"
  "vhelp (interactive_set v b) = vhelp v"
  "vhelp (active_layer_set v a) = vhelp v"
  "vcursor (interactive_set v b) = vcursor v"
  "vcursor (active_layer_set v a) = vcursor v"
  "vinteractive (active_layer_set v a) = vinteractive v"
  by (simp_all add: help_set_def cursor_set_def interactive_set_def active_layer_set_def)

text \<open>
  C10. After \<open>_update_active_layer\<close> the active layer is the selected layer when exactly
  one layer of the list is selected, and \<open>None\<close> when no layer or more than one is; in the
  \<open>None\<close> case the status is \<open>Ready\<close>, the help string is empty, the cursor is
  \<open>standard\<close> and the viewer is interactive.
\<close>

theorem update_active_layer_unique:
  "(filter layer_selected (layers v) = [l] \<longrightarrow>
      active_layer (update_active_layer v) = Some l) \<and>
   (length (filter layer_selected (layers v)) \<noteq> 1 \<longrightarrow>
      active_layer (update_active_layer v) = None \<and>
      vstatus (update_active_layer v) = ''Ready'' \<and>
      vhelp (update_active_layer v) = '''' \<and>
      vcursor (update_active_layer v) = ''standard'' \<and>
      vinteractive (update_active_layer v))"
  by (simp add: update_active_layer_def find_active_None split: list.splits)

theorem update_active_layer_unique_witness:
  "filter layer_selected (layers ex_viewer) = [ex_image] \<and>
   active_layer (update_active_layer ex_viewer) = Some ex_image \<and>
   length (filter layer_selected (layers (ex_viewer\<lparr>layers := [ex_points]\<rparr>))) \<noteq> 1 \<and>
   active_layer (update_active_layer (ex_viewer\<lparr>layers := [ex_points]\<rparr>)) = None \<and>
   vstatus (update_active_layer (ex_viewer\<lparr>layers := [ex_points]\<rparr>)) = ''Ready'' \<and>
   vcursor (update_active_layer (ex_viewer\<lparr>layers := [ex_points]\<rparr>)) = ''standard'' \<and>
   vinteractive (update_active_layer (ex_viewer\<lparr>layers := [ex_points]\<rparr>))"
proof -
  have one: "filter layer_selected (layers ex_viewer) = [ex_image]"
    by (simp add: ex_viewer_def ex_image_def ex_points_def)
  have none: "length (filter layer_selected (layers (ex_viewer\<lparr>layers := [ex_points]\<rparr>))) \<noteq> 1"
    by (simp add: ex_points_def)
  from one none update_active_layer_unique [of ex_viewer ex_image]
    update_active_layer_unique [of "ex_viewer\<lparr>layers := [ex_points]\<rparr>" ex_image]
  show ?thesis by blast
qed

section \<open>The selected label and the brush size\<close>

text \<open>
  C7. Assigning a negative value to \<open>selected_label\<close> raises \<open>ValueError\<close> and leaves the
  layer, so also the selected label and the selected colour, as it was; assigning a
  non-negative value returns with that value stored.
\<close>

theorem selected_label_set_negative_raises:
  "(v < 0 \<longrightarrow> selected_label_set cmap s v = Raises ValueError s) \<and>
   (0 \<le> v \<longrightarrow> (\<exists>s'. selected_label_set cmap s v = Returns s' \<and> selected_label s' = v))"
  by (simp add: selected_label_set_def)

theorem selected_label_set_negative_raises_witness:
  "selected_label_set ex_cmap ex_labels (- 1) = Raises ValueError ex_labels \<and>
   (\<exists>s'. selected_label_set ex_cmap ex_labels 7 = Returns s' \<and> selected_label s' = 7)"
  using selected_label_set_negative_raises [of "- 1" ex_cmap ex_labels]
    selected_label_set_negative_raises [of 7 ex_cmap ex_labels]
  by simp

text \<open>
  C9. The \<open>brush_size\<close> setter stores the argument truncated towards zero: the stored
  integer \<open>b\<close> satisfies \<open>|b| \<le> |v|\<close> and \<open>|v - b| < 1\<close>, whether or not the later division
  by the scale factor raises.
\<close>

theorem brush_size_set_truncates:
  "brush_size (state_of (brush_size_set s v)) = py_int v \<and>
   \<bar>real_of_int (py_int v)\<bar> \<le> \<bar>v\<bar> \<and> \<bar>v - real_of_int (py_int v)\<bar> < 1"
proof -
  have stored: "brush_size (state_of (brush_size_set s v)) = py_int v"
    by (simp add: brush_size_set_def Let_def)
  have le: "\<bar>real_of_int (py_int v)\<bar> \<le> \<bar>v\<bar>"
  proof (cases "0 \<le> v")
    case True
    then have "0 \<le> \<lfloor>v\<rfloor>" by simp
    with True show ?thesis by (simp add: py_int_def)
  next
    case False
    then have "\<lceil>v\<rceil> \<le> 0" by (simp add: ceiling_le_iff)
    moreover have "v \<le> real_of_int \<lceil>v\<rceil>" by simp
    ultimately show ?thesis using False by (simp add: py_int_def)
  qed
  have near: "\<bar>v - real_of_int (py_int v)\<bar> < 1"
  proof (cases "0 \<le> v")
    case True
    then show ?thesis unfolding py_int_def by simp linarith
  next
    case False
    then show ?thesis unfolding py_int_def by simp linarith
  qed
  from stored le near show ?thesis by simp
qed

theorem brush_size_set_truncates_witness:
  "brush_size (state_of (brush_size_set ex_labels (7 / 2))) = 3 \<and>
   brush_size (state_of (brush_size_set ex_labels (- 7 / 2))) = - 3"
proof -
  have "py_int (7 / 2) = 3" "py_int (- 7 / 2) = - 3"
    by (simp_all add: py_int_def)
  with brush_size_set_truncates [of ex_labels "7 / 2"]
    brush_size_set_truncates [of ex_labels "- 7 / 2"]
  show ?thesis by simp
qed

section \<open>Axis reconciliation\<close>

lemma bind_err_Inr [simp]: "bind_err (Inr x) f = f x"
  by (simp add: bind_err_def)

lemma bind_err_Inl [simp]: "bind_err (Inl e) f = Inl e"
  by (simp add: bind_err_def)

lemma bind_err_eq_Inr: "bind_err m f = Inr y \<longleftrightarrow> (\<exists>x. m = Inr x \<and> f x = Inr y)"
  by (cases m) simp_all

lemma is_perm_mset: "is_perm n xs \<longleftrightarrow> mset xs = mset [0..<n]"
proof
  assume "is_perm n xs"
  then have "mset (sort xs) = mset [0..<n]" by (simp add: is_perm_def)
  then show "mset xs = mset [0..<n]" by simp
next
  assume "mset xs = mset [0..<n]"
  then have "sort xs = [0..<n]"
    by (intro properties_for_sort) simp_all
  then show "is_perm n xs" by (simp add: is_perm_def)
qed

lemma is_perm_drop_front:
  assumes "is_perm n xs" and "k \<le> n"
  shows "is_perm (n - k) (map (\<lambda>ax. ax - k) (filter (\<lambda>ax. k \<le> ax) xs))"
proof -
  from assms(1) have "mset xs = mset [0..<n]" by (simp add: is_perm_mset)
  then have "mset (filter (\<lambda>ax. k \<le> ax) xs) = mset (filter (\<lambda>ax. k \<le> ax) [0..<n])"
    by (metis mset_filter)
  also have "filter (\<lambda>ax. k \<le> ax) [0..<n] = [k..<n]"
    using assms(2) by (induction n) (auto simp: le_Suc_eq)
  finally have "mset (map (\<lambda>ax. ax - k) (filter (\<lambda>ax. k \<le> ax) xs)) = mset (map (\<lambda>ax. ax - k) [k..<n])"
    by (metis mset_map)
  also have "map (\<lambda>ax. ax - k) [k..<n] = [0..<n - k]"
    by (rule nth_equalityI) simp_all
  finally show ?thesis by (simp add: is_perm_mset)
qed


lemma set_point_Inr:
  assumes "set_point d axis p = Inr d'"
  shows "axis < ndim d \<and> ndim d' = ndim d \<and> drange d' = drange d \<and> order d' = order d \<and>
     ndisplay d' = ndisplay d \<and> point d' = (point d)[axis := clamp (drange d ! axis) p]"
proof (cases "point d ! axis = clamp (drange d ! axis) p")
  case True
  then have "(point d)[axis := clamp (drange d ! axis) p] = point d"
    by (metis list_update_id)
  with True assms show ?thesis
    by (auto simp: set_point_def Let_def split: if_splits)
next
  case False
  with assms show ?thesis
    by (auto simp: set_point_def Let_def split: if_splits)
qed

lemma set_point_same:
  assumes "axis < ndim d" and "point d ! axis = clamp (drange d ! axis) p"
  shows "set_point d axis p = Inr d"
  using assms by (simp add: set_point_def)

lemma set_point_total: "axis < ndim d \<Longrightarrow> \<exists>d'. set_point d axis p = Inr d'"
  by (simp add: set_point_def Let_def)

lemma push_points_Inr:
  assumes "push_points gd off axes d = Inr d'" and "length (point d) = ndim d"
  shows "ndim d' = ndim d \<and> drange d' = drange d \<and> order d' = order d \<and>
     ndisplay d' = ndisplay d \<and> length (point d') = ndim d \<and>
     (\<forall>a\<in>set axes. a < ndim d \<and>
        (\<exists>p. py_index (point gd) (int a + off) = Inr p \<and>
           point d' ! a = clamp (drange d ! a) p)) \<and>
     (\<forall>a. a \<notin> set axes \<longrightarrow> point d' ! a = point d ! a)"
  using assms
proof (induction axes arbitrary: d)
  case Nil
  then show ?case by simp
next
  case (Cons axis axes)
  from Cons.prems(1) obtain p d1 where
    p: "py_index (point gd) (int axis + off) = Inr p" and
    d1: "set_point d axis p = Inr d1" and
    rest: "push_points gd off axes d1 = Inr d'"
    by (auto simp: bind_err_eq_Inr)
  note s = set_point_Inr [OF d1]
  from s Cons.prems(2) have len1: "length (point d1) = ndim d1" by simp
  note ih = Cons.IH [OF rest len1]
  have ax: "point d' ! axis = clamp (drange d ! axis) p"
  proof (cases "axis \<in> set axes")
    case True
    with ih p s show ?thesis by auto
  next
    case False
    with ih have "point d' ! axis = point d1 ! axis" by simp
    with s Cons.prems(2) show ?thesis by simp
  qed
  have other: "\<forall>a. a \<notin> set (axis # axes) \<longrightarrow> point d' ! a = point d ! a"
    using ih s by auto
  from ih s ax p other show ?case by auto
qed

lemma push_points_again:
  assumes "\<forall>a\<in>set axes. a < ndim d \<and>
        (\<exists>p. py_index (point gd) (int a + off) = Inr p \<and> point d ! a = clamp (drange d ! a) p)"
  shows "push_points gd off axes d = Inr d"
  using assms by (induction axes) (auto simp: set_point_same)

lemma push_points_total:
  assumes "\<forall>a\<in>set axes. a < ndim d \<and> (\<exists>p. py_index (point gd) (int a + off) = Inr p)"
  shows "\<exists>d'. push_points gd off axes d = Inr d'"
  using assms
proof (induction axes arbitrary: d)
  case Nil
  then show ?case by simp
next
  case (Cons axis axes)
  then obtain p where p: "py_index (point gd) (int axis + off) = Inr p" by auto
  from Cons.prems obtain d1 where d1: "set_point d axis p = Inr d1"
    using set_point_total [of axis d p] by auto
  from set_point_Inr [OF d1] Cons.prems
  have "\<forall>a\<in>set axes. a < ndim d1 \<and> (\<exists>p. py_index (point gd) (int a + off) = Inr p)" by simp
  from Cons.IH [OF this] p d1 show ?case by simp
qed

lemma set_order_Inr:
  assumes "set_order d ord = Inr d'"
  shows "is_perm (ndim d) ord \<and> order d' = ord \<and> ndim d' = ndim d \<and> drange d' = drange d \<and>
     point d' = point d \<and> ndisplay d' = ndisplay d"
  using assms by (auto simp: set_order_def split: if_splits)

lemma set_ndisplay_Inr:
  assumes "set_ndisplay d n = Inr d'"
  shows "(n = 2 \<or> n = 3) \<and> ndisplay d' = n \<and> ndim d' = ndim d \<and> drange d' = drange d \<and>
     point d' = point d \<and> order d' = order d"
  using assms by (auto simp: set_ndisplay_def split: if_splits)

lemma update_layer_Inr:
  assumes "update_layer gd l = Inr l'" and "length (point (layer_dims l)) = ndim (layer_dims l)"
  shows "l' = l\<lparr>layer_dims := layer_dims l'\<rparr>"
    and "ndim (layer_dims l') = ndim (layer_dims l)"
    and "drange (layer_dims l') = drange (layer_dims l)"
    and "length (point (layer_dims l')) = ndim (layer_dims l)"
    and "order (layer_dims l') = layer_order gd (layer_dims l)"
    and "is_perm (ndim (layer_dims l)) (order (layer_dims l'))"
    and "ndisplay (layer_dims l') = ndisplay gd"
    and "ndisplay gd = 2 \<or> ndisplay gd = 3"
    and "\<forall>a<ndim (layer_dims l).
        \<exists>p. py_index (point gd) (int a + (int (ndim gd) - int (ndim (layer_dims l)))) = Inr p \<and>
           point (layer_dims l') ! a = clamp (drange (layer_dims l) ! a) p"
proof -
  from assms(1) obtain d1 d2 d3 where
    d1: "set_order (layer_dims l) (layer_order gd (layer_dims l)) = Inr d1" and
    d2: "set_ndisplay d1 (ndisplay gd) = Inr d2" and
    d3: "push_points gd (int (ndim gd) - int (ndim (layer_dims l))) [0..<ndim d2] d2 = Inr d3" and
    l': "l' = l\<lparr>layer_dims := d3\<rparr>"
    by (auto simp: update_layer_def Let_def bind_err_eq_Inr)
  note o = set_order_Inr [OF d1]
  note n = set_ndisplay_Inr [OF d2]
  from o n assms(2) have len: "length (point d2) = ndim d2" by simp
  note p = push_points_Inr [OF d3 len]
  from l' show "l' = l\<lparr>layer_dims := layer_dims l'\<rparr>" by simp
  from o n p l' show "ndim (layer_dims l') = ndim (layer_dims l)" by simp
  from o n p l' show "drange (layer_dims l') = drange (layer_dims l)" by simp
  from o n p l' show "length (point (layer_dims l')) = ndim (layer_dims l)" by simp
  from o n p l' show "order (layer_dims l') = layer_order gd (layer_dims l)" by simp
  from o n p l' show "is_perm (ndim (layer_dims l)) (order (layer_dims l'))" by simp
  from o n p l' show "ndisplay (layer_dims l') = ndisplay gd" by simp
  from n show "ndisplay gd = 2 \<or> ndisplay gd = 3" by simp
  from o n p l' show "\<forall>a<ndim (layer_dims l).
        \<exists>p. py_index (point gd) (int a + (int (ndim gd) - int (ndim (layer_dims l)))) = Inr p \<and>
           point (layer_dims l') ! a = clamp (drange (layer_dims l) ! a) p" by simp
qed

lemma update_layer_again:
  assumes "update_layer gd l = Inr l'" and "length (point (layer_dims l)) = ndim (layer_dims l)"
  shows "update_layer gd l' = Inr l'"
proof -
  note u = update_layer_Inr [OF assms]
  let ?d = "layer_dims l'"
  from u(2,5) have ord: "layer_order gd ?d = order ?d"
    by (simp add: layer_order_def)
  from u(2,6) have perm: "is_perm (ndim ?d) (order ?d)"
    by simp
  from ord perm have 1: "set_order ?d (layer_order gd ?d) = Inr ?d"
    by (simp add: set_order_def)
  from u(7,8) have 2: "set_ndisplay ?d (ndisplay gd) = Inr ?d"
    by (auto simp: set_ndisplay_def)
  from u(2,3,9) have 3: "push_points gd (int (ndim gd) - int (ndim ?d)) [0..<ndim ?d] ?d = Inr ?d"
    by (intro push_points_again) simp
  have 4: "l'\<lparr>layer_dims := ?d\<rparr> = l'" by simp
  from 1 2 3 4 show ?thesis
    by (simp add: update_layer_def Let_def)
qed

lemma update_each_Inr:
  assumes "update_each gd ls = Inr ls'"
  shows "list_all2 (\<lambda>l l'. update_layer gd l = Inr l') ls ls'"
  using assms by (induction ls arbitrary: ls') (auto simp: bind_err_eq_Inr)

lemma update_each_again:
  assumes "list_all2 (\<lambda>l l'. update_layer gd l = Inr l') ls ls'"
    and "\<forall>l\<in>set ls. length (point (layer_dims l)) = ndim (layer_dims l)"
  shows "update_each gd ls' = Inr ls'"
  using assms by (induction ls ls' rule: list_all2_induct) (simp_all add: update_layer_again)


lemma layer_order_pos:
  assumes "ndim ld < ndim gd"
  shows "layer_order gd ld =
     map (\<lambda>ax. ax - (ndim gd - ndim ld)) (filter (\<lambda>ax. ndim gd - ndim ld \<le> ax) (order gd))"
proof -
  have "nat (int ax - (int (ndim gd) - int (ndim ld))) = ax - (ndim gd - ndim ld)" for ax
    using assms by linarith
  moreover have "(int (ndim gd) - int (ndim ld) \<le> int ax) = (ndim gd - ndim ld \<le> ax)" for ax
    using assms by linarith
  ultimately show ?thesis
    using assms by (simp add: layer_order_def)
qed

lemma layer_order_perm:
  assumes "is_perm (ndim gd) (order gd)" and "ndim ld \<le> ndim gd"
  shows "is_perm (ndim ld) (layer_order gd ld)"
proof (cases "ndim ld = ndim gd")
  case True
  with assms show ?thesis by (simp add: layer_order_def)
next
  case False
  with assms have lt: "ndim ld < ndim gd" by simp
  from is_perm_drop_front [OF assms(1), of "ndim gd - ndim ld"] lt
  show ?thesis by (simp add: layer_order_pos)
qed

lemma py_index_nat:
  "a + k < length xs \<Longrightarrow> py_index xs (int a + int k) = Inr (xs ! (a + k))"
  by (simp add: py_index_def nat_add_distrib)

lemma update_layer_total:
  assumes "dims_ok gd" and "dims_ok (layer_dims l)" and "ndim (layer_dims l) \<le> ndim gd"
  shows "\<exists>l'. update_layer gd l = Inr l'"
proof -
  let ?ld = "layer_dims l"
  let ?k = "ndim gd - ndim ?ld"
  from assms have perm: "is_perm (ndim ?ld) (layer_order gd ?ld)"
    by (simp add: dims_ok_def layer_order_perm)
  then obtain d1 where d1: "set_order ?ld (layer_order gd ?ld) = Inr d1"
    by (cases "layer_order gd ?ld = order ?ld") (simp_all add: set_order_def)
  from assms(1) have nd: "ndisplay gd = 2 \<or> ndisplay gd = 3"
    by (simp add: dims_ok_def)
  then obtain d2 where d2: "set_ndisplay d1 (ndisplay gd) = Inr d2"
    by (cases "ndisplay gd = ndisplay d1") (simp_all add: set_ndisplay_def)
  note o = set_order_Inr [OF d1]
  note n = set_ndisplay_Inr [OF d2]
  have off: "int (ndim gd) - int (ndim ?ld) = int ?k"
    using assms(3) by simp
  have "\<forall>a\<in>set [0..<ndim d2]. a < ndim d2 \<and> (\<exists>p. py_index (point gd) (int a + int ?k) = Inr p)"
  proof (intro ballI conjI)
    fix a assume "a \<in> set [0..<ndim d2]"
    then show a: "a < ndim d2" by simp
    with o n assms(3) have "a + ?k < ndim gd" by simp
    with assms(1) have "a + ?k < length (point gd)" by (simp add: dims_ok_def)
    then show "\<exists>p. py_index (point gd) (int a + int ?k) = Inr p"
      by (simp add: py_index_nat)
  qed
  from push_points_total [OF this] obtain d3 where
    "push_points gd (int ?k) [0..<ndim d2] d2 = Inr d3" by auto
  then have "push_points gd (int (ndim gd) - int (ndim ?ld)) [0..<ndim d2] d2 = Inr d3"
    by (simp only: off)
  with d1 d2 show ?thesis
    by (simp add: update_layer_def Let_def)
qed

lemma update_each_total:
  assumes "dims_ok gd"
    and "\<forall>l\<in>set ls. dims_ok (layer_dims l) \<and> ndim (layer_dims l) \<le> ndim gd"
  shows "\<exists>ls'. update_each gd ls = Inr ls'"
  using assms(2)
proof (induction ls)
  case Nil
  show ?case by simp
next
  case (Cons l ls)
  from Cons.prems update_layer_total [OF assms(1), of l]
  obtain l' where "update_layer gd l = Inr l'" by auto
  moreover from Cons obtain ls' where "update_each gd ls = Inr ls'" by auto
  ultimately show ?case by simp
qed

lemma clamp_inside: "lo \<le> p \<Longrightarrow> p \<le> hi \<Longrightarrow> clamp (lo, hi, st) p = p"
  by (simp add: clamp_def min_def max_def)

lemma viewer_ok_layers:
  "viewer_ok v \<Longrightarrow> l \<in> set (layers v) \<Longrightarrow>
     dims_ok (layer_dims l) \<and> layer_ndim l = ndim (layer_dims l) \<and>
     ndim (layer_dims l) \<le> ndim (vdims v)"
  by (simp add: viewer_ok_def list_all_iff)

lemma update_layers_total:
  assumes "viewer_ok v"
  shows "\<exists>v'. update_layers v = Inr v'"
proof -
  from assms have "dims_ok (vdims v)" by (simp add: viewer_ok_def)
  moreover from assms
  have "\<forall>l\<in>set (layers v). dims_ok (layer_dims l) \<and> ndim (layer_dims l) \<le> ndim (vdims v)"
    by (simp add: viewer_ok_layers)
  ultimately obtain ls' where "update_each (vdims v) (layers v) = Inr ls'"
    using update_each_total by blast
  then show ?thesis by (simp add: update_layers_def)
qed

text \<open>
  C1. In a well-formed viewer, for a layer with fewer axes than the viewer
  (\<open>offset = k > 0\<close>), \<open>_update_layers\<close> returns and leaves the layer with: the global order
  without its entries below \<open>k\<close>, each remaining entry lowered by \<open>k\<close>, in the same relative
  order, which is a permutation of \<open>[0, layer_ndim)\<close>; the global \<open>ndisplay\<close>; and on every
  axis \<open>a\<close> of the layer the value \<open>set_point\<close> stores for the global \<open>point[a + k]\<close>, that
  is this point clamped to the layer's range on the axis, hence the point itself whenever
  it lies in that range.
\<close>

theorem update_layers_offset_positive:
  assumes "viewer_ok v" and "i < length (layers v)"
    and "ndim (layer_dims (layers v ! i)) < ndim (vdims v)"
  shows "\<exists>v'. update_layers v = Inr v' \<and> vdims v' = vdims v \<and>
     length (layers v') = length (layers v) \<and>
     (let gd = vdims v; ld = layer_dims (layers v ! i); ld' = layer_dims (layers v' ! i);
          k = ndim gd - ndim ld
      in ndim ld' = ndim ld \<and>
         order ld' = map (\<lambda>ax. ax - k) (filter (\<lambda>ax. k \<le> ax) (order gd)) \<and>
         is_perm (ndim ld) (order ld') \<and>
         ndisplay ld' = ndisplay gd \<and>
         (\<forall>a<ndim ld. point ld' ! a = clamp (drange ld ! a) (point gd ! (a + k))) \<and>
         (\<forall>a<ndim ld. fst (drange ld ! a) \<le> point gd ! (a + k) \<and>
              point gd ! (a + k) \<le> fst (snd (drange ld ! a)) \<longrightarrow>
              point ld' ! a = point gd ! (a + k)))"
proof -
  let ?gd = "vdims v"
  let ?l = "layers v ! i"
  let ?ld = "layer_dims ?l"
  let ?k = "ndim ?gd - ndim ?ld"
  from update_layers_total [OF assms(1)] obtain v' where v': "update_layers v = Inr v'" ..
  then obtain ls' where ls': "update_each ?gd (layers v) = Inr ls'" and vv: "v' = v\<lparr>layers := ls'\<rparr>"
    by (auto simp: update_layers_def bind_err_eq_Inr)
  from update_each_Inr [OF ls'] have all2: "list_all2 (\<lambda>l l'. update_layer ?gd l = Inr l') (layers v) ls'" .
  then have len: "length ls' = length (layers v)"
    by (simp add: list_all2_lengthD)
  from all2 assms(2) have ul: "update_layer ?gd ?l = Inr (ls' ! i)"
    by (rule list_all2_nthD)
  from assms(1,2) have lok: "dims_ok ?ld"
    using viewer_ok_layers [of v ?l] by simp
  from assms(1) have gok: "dims_ok ?gd" by (simp add: viewer_ok_def)
  from lok have lenp: "length (point ?ld) = ndim ?ld" by (simp add: dims_ok_def)
  note u = update_layer_Inr [OF ul lenp]
  have off: "int (ndim ?gd) - int (ndim ?ld) = int ?k"
    using assms(3) by simp
  have pts: "\<forall>a<ndim ?ld. point (layer_dims (ls' ! i)) ! a =
      clamp (drange ?ld ! a) (point ?gd ! (a + ?k))"
  proof (intro allI impI)
    fix a assume a: "a < ndim ?ld"
    with u(9) obtain p where
      p: "py_index (point ?gd) (int a + (int (ndim ?gd) - int (ndim ?ld))) = Inr p" and
      pt: "point (layer_dims (ls' ! i)) ! a = clamp (drange ?ld ! a) p"
      by blast
    from a assms(3) gok have "a + ?k < length (point ?gd)" by (simp add: dims_ok_def)
    then have "py_index (point ?gd) (int a + int ?k) = Inr (point ?gd ! (a + ?k))"
      by (rule py_index_nat)
    with p have "p = point ?gd ! (a + ?k)" by (simp only: off sum.inject)
    with pt show "point (layer_dims (ls' ! i)) ! a = clamp (drange ?ld ! a) (point ?gd ! (a + ?k))"
      by simp
  qed
  have inside: "\<forall>a<ndim ?ld. fst (drange ?ld ! a) \<le> point ?gd ! (a + ?k) \<and>
      point ?gd ! (a + ?k) \<le> fst (snd (drange ?ld ! a)) \<longrightarrow>
      point (layer_dims (ls' ! i)) ! a = point ?gd ! (a + ?k)"
  proof (intro allI impI)
    fix a assume a: "a < ndim ?ld"
      and b: "fst (drange ?ld ! a) \<le> point ?gd ! (a + ?k) \<and>
        point ?gd ! (a + ?k) \<le> fst (snd (drange ?ld ! a))"
    obtain lo hi st where r: "drange ?ld ! a = (lo, hi, st)" by (cases "drange ?ld ! a") auto
    with b pts a show "point (layer_dims (ls' ! i)) ! a = point ?gd ! (a + ?k)"
      by (simp add: clamp_inside)
  qed
  have ord: "order (layer_dims (ls' ! i)) =
      map (\<lambda>ax. ax - ?k) (filter (\<lambda>ax. ?k \<le> ax) (order ?gd))"
    using u(5) assms(3) by (simp add: layer_order_pos)
  have lay: "layers (v\<lparr>layers := ls'\<rparr>) ! i = ls' ! i" and gd: "vdims (v\<lparr>layers := ls'\<rparr>) = vdims v"
    by simp_all
  from ord u(6) have perm: "is_perm (ndim ?ld)
      (map (\<lambda>ax. ax - ?k) (filter (\<lambda>ax. ?k \<le> ax) (order ?gd)))"
    by simp
  show ?thesis
    unfolding Let_def
  proof (intro exI [of _ "v\<lparr>layers := ls'\<rparr>"] conjI)
    from v' vv show "update_layers v = Inr (v\<lparr>layers := ls'\<rparr>)" by simp
    show "vdims (v\<lparr>layers := ls'\<rparr>) = vdims v" by simp
    from len show "length (layers (v\<lparr>layers := ls'\<rparr>)) = length (layers v)" by simp
    from u(2) show "ndim (layer_dims (layers (v\<lparr>layers := ls'\<rparr>) ! i)) = ndim ?ld"
      by (simp only: lay)
    from ord show o1: "order (layer_dims (layers (v\<lparr>layers := ls'\<rparr>) ! i)) =
        map (\<lambda>ax. ax - ?k) (filter (\<lambda>ax. ?k \<le> ax) (order ?gd))"
      by (simp only: lay)
    from perm show "is_perm (ndim ?ld) (order (layer_dims (layers (v\<lparr>layers := ls'\<rparr>) ! i)))"
      by (simp only: o1)
    from u(7) show "ndisplay (layer_dims (layers (v\<lparr>layers := ls'\<rparr>) ! i)) = ndisplay ?gd"
      by (simp only: lay)
    from pts show "\<forall>a<ndim ?ld. point (layer_dims (layers (v\<lparr>layers := ls'\<rparr>) ! i)) ! a =
        clamp (drange ?ld ! a) (point ?gd ! (a + ?k))"
      by (simp only: lay)
    from inside show "\<forall>a<ndim ?ld. fst (drange ?ld ! a) \<le> point ?gd ! (a + ?k) \<and>
        point ?gd ! (a + ?k) \<le> fst (snd (drange ?ld ! a)) \<longrightarrow>
        point (layer_dims (layers (v\<lparr>layers := ls'\<rparr>) ! i)) ! a = point ?gd ! (a + ?k)"
      by (simp only: lay)
  qed
qed

text \<open>
  C5. \<open>_update_layers\<close> is idempotent: when a run returns the viewer \<open>v'\<close>, a second run on
  \<open>v'\<close> returns \<open>v'\<close> itself, so every layer's order, \<open>ndisplay\<close> and point are as after the
  first run and the log of emitted notifications has not grown. In a well-formed viewer
  the run does return.
\<close>

theorem update_layers_idempotent:
  assumes "\<forall>l\<in>set (layers v). dims_ok (layer_dims l)"
  shows "(update_layers v = Inr v' \<longrightarrow> update_layers v' = Inr v') \<and>
     (viewer_ok v \<longrightarrow> (\<exists>v''. update_layers v = Inr v''))"
proof (intro conjI impI)
  assume "update_layers v = Inr v'"
  then obtain ls' where ls': "update_each (vdims v) (layers v) = Inr ls'"
    and vv: "v' = v\<lparr>layers := ls'\<rparr>"
    by (auto simp: update_layers_def bind_err_eq_Inr)
  from assms have "\<forall>l\<in>set (layers v). length (point (layer_dims l)) = ndim (layer_dims l)"
    by (simp add: dims_ok_def)
  from update_each_again [OF update_each_Inr [OF ls'] this]
  have "update_each (vdims v) ls' = Inr ls'" .
  with vv show "update_layers v' = Inr v'"
    by (simp add: update_layers_def)
next
  assume "viewer_ok v"
  then show "\<exists>v''. update_layers v = Inr v''" by (rule update_layers_total)
qed

lemma is_perm_ex [simp]: "is_perm 3 [0, 2, Suc 0]" "is_perm 2 [0, Suc 0]"
  by code_simp+

lemma ex_viewer_ok: "viewer_ok ex_viewer"
  by (simp add: viewer_ok_def ex_viewer_def ex_image_def ex_points_def ex_dims3_def ex_dims2_def
      dims_ok_def)

theorem update_layers_offset_positive_witness:
  "viewer_ok ex_viewer \<and> (1::nat) < length (layers ex_viewer) \<and>
   ndim (layer_dims (layers ex_viewer ! 1)) < ndim (vdims ex_viewer) \<and>
   (\<exists>v'. update_layers ex_viewer = Inr v' \<and>
      order (layer_dims (layers v' ! 1)) = [1, 0] \<and>
      ndisplay (layer_dims (layers v' ! 1)) = 2 \<and>
      point (layer_dims (layers v' ! 1)) ! 0 = Fin 7 \<and>
      point (layer_dims (layers v' ! 1)) ! 1 = Fin 19)"
proof -
  have len: "(1::nat) < length (layers ex_viewer)"
    by (simp add: ex_viewer_def)
  have lt: "ndim (layer_dims (layers ex_viewer ! 1)) < ndim (vdims ex_viewer)"
    by (simp add: ex_viewer_def ex_points_def ex_dims2_def ex_dims3_def)
  from update_layers_offset_positive [OF ex_viewer_ok len lt]
  obtain v' where v': "update_layers ex_viewer = Inr v'"
    and ord: "order (layer_dims (layers v' ! 1)) = map (\<lambda>ax. ax - 1) (filter (\<lambda>ax. 1 \<le> ax) [0, 2, 1])"
    and nd: "ndisplay (layer_dims (layers v' ! 1)) = 2"
    and pt: "\<forall>a<2. point (layer_dims (layers v' ! 1)) ! a =
        clamp (drange ex_dims2 ! a) (point ex_dims3 ! (a + 1))"
    by (auto simp: Let_def ex_viewer_def ex_points_def ex_dims2_def ex_dims3_def)
  from pt have "point (layer_dims (layers v' ! 1)) ! 0 = Fin 7"
    by (simp add: ex_dims2_def ex_dims3_def clamp_def min_def max_def)
  moreover from pt have "point (layer_dims (layers v' ! 1)) ! 1 = Fin 19"
    by (simp add: ex_dims2_def ex_dims3_def clamp_def min_def max_def)
  ultimately show ?thesis
    using ex_viewer_ok len lt v' ord nd by auto
qed

theorem update_layers_idempotent_witness:
  "list_all (\<lambda>l. dims_ok (layer_dims l)) (layers ex_viewer) \<and> viewer_ok ex_viewer \<and>
   (\<exists>v'. update_layers ex_viewer = Inr v' \<and> update_layers v' = Inr v')"
proof -
  have ok: "\<forall>l\<in>set (layers ex_viewer). dims_ok (layer_dims l)"
    using ex_viewer_ok by (simp add: viewer_ok_layers)
  from update_layers_idempotent [OF ok] ex_viewer_ok
  obtain v' where v': "update_layers ex_viewer = Inr v'" by blast
  with update_layers_idempotent [OF ok, of v'] have "update_layers v' = Inr v'" by blast
  with ok ex_viewer_ok v' show ?thesis by (auto simp: list_all_iff)
qed

text \<open>
  The point a layer receives need not be the global point. In \<open>ex_viewer_union\<close> the
  global point \<open>(4, 0, 1)\<close> lies in the global range, the union of the ranges of the
  layers; the points layer, whose own range starts at 1 and at 2, is left at \<open>(1, 2)\<close>,
  not at \<open>(0, 1)\<close>.
\<close>

theorem update_layers_point_clamped:
  "viewer_ok ex_viewer_union \<and>
   point (vdims ex_viewer_union) = [Fin 4, Fin 0, Fin 1] \<and>
   (case update_layers ex_viewer_union of Inl e \<Rightarrow> None
    | Inr v \<Rightarrow> Some (point (layer_dims (layers v ! 1)))) = Some [Fin 1, Fin 2]"
  by code_simp

section \<open>The global range\<close>

lemma ext_top [simp]: "x \<le> PInf"
  by (cases x) simp_all

lemma ext_bot [simp]: "MInf \<le> x"
  by simp

lemma num_dims_fold:
  "fold (\<lambda>l m. if m < layer_ndim l then layer_ndim l else m) ls m =
     Max (insert m (layer_ndim ` set ls))"
proof (induction ls arbitrary: m)
  case Nil
  show ?case by simp
next
  case (Cons l ls)
  have "(if m < layer_ndim l then layer_ndim l else m) = max m (layer_ndim l)"
    by (simp add: max_def)
  moreover have "Max (insert (max m (layer_ndim l)) (layer_ndim ` set ls)) =
      Max (insert m (insert (layer_ndim l) (layer_ndim ` set ls)))"
    by (cases "set ls = {}") (simp_all add: max.assoc)
  ultimately show ?case using Cons.IH by simp
qed

lemma calc_layers_num_dims_Max:
  "calc_layers_num_dims ls = Max (insert 0 (layer_ndim ` set ls))"
  by (simp add: calc_layers_num_dims_def num_dims_fold)

lemma zip_longest_length [simp]:
  "length (zip_longest f xs ys) = max (length xs) (length ys)"
  by (induction f xs ys rule: zip_longest.induct) simp_all

lemma zip_longest_nth:
  "k < max (length xs) (length ys) \<Longrightarrow>
     zip_longest f xs ys ! k = (nth_default f xs k, nth_default f ys k)"
proof (induction f xs ys arbitrary: k rule: zip_longest.induct)
  case (1 f)
  then show ?case by simp
next
  case (2 f x xs)
  then show ?case by (cases k) (simp_all add: nth_default_def)
next
  case (3 f y ys)
  then show ?case by (cases k) (simp_all add: nth_default_def)
next
  case (4 f x xs y ys)
  then show ?case by (cases k) (simp_all add: nth_default_def)
qed

lemma merge_empty [simp]: "merge_range empty_range empty_range = empty_range"
  by (simp add: merge_range_def empty_range_def)

lemma merge_layer_length [simp]:
  "length (merge_layer l rs) = max (length rs) (length (drange (layer_dims l)))"
  by (simp add: merge_layer_def)

lemma merge_layer_nth:
  "nth_default empty_range (merge_layer l rs) k =
     merge_range (nth_default empty_range rs k)
       (nth_default empty_range (rev (drange (layer_dims l))) k)"
proof (cases "k < max (length rs) (length (drange (layer_dims l)))")
  case True
  then have "merge_layer l rs ! k =
      merge_range (nth_default empty_range rs k)
        (nth_default empty_range (rev (drange (layer_dims l))) k)"
    by (simp add: merge_layer_def zip_longest_nth)
  with True show ?thesis by (simp add: nth_default_def)
next
  case False
  then have "\<not> k < length rs" "\<not> k < length (drange (layer_dims l))"
    by simp_all
  with False show ?thesis by (simp add: nth_default_def)
qed

lemma fold_merge_length:
  "length (fold merge_layer ls rs) =
     Max (insert (length rs) ((\<lambda>l. length (drange (layer_dims l))) ` set ls))"
proof (induction ls arbitrary: rs)
  case Nil
  show ?case by simp
next
  case (Cons l ls)
  have "Max (insert (max (length rs) (length (drange (layer_dims l))))
          ((\<lambda>l. length (drange (layer_dims l))) ` set ls)) =
      Max (insert (length rs) (insert (length (drange (layer_dims l)))
          ((\<lambda>l. length (drange (layer_dims l))) ` set ls)))"
    by (cases "set ls = {}") (simp_all add: max.assoc)
  then show ?case using Cons.IH by simp
qed

lemma fold_merge_nth:
  "nth_default empty_range (fold merge_layer ls rs) k =
     fold (\<lambda>l acc. merge_range acc (nth_default empty_range (rev (drange (layer_dims l))) k))
       ls (nth_default empty_range rs k)"
  by (induction ls arbitrary: rs) (simp_all add: merge_layer_nth)


lemma fold_merge_fst:
  "fst (fold (\<lambda>l acc. merge_range acc (g l)) ls a) = Min (set (fst a # map (\<lambda>l. fst (g l)) ls))"
proof (induction ls arbitrary: a)
  case Nil
  show ?case by simp
next
  case (Cons l ls)
  have "fst (merge_range a (g l)) = min (fst a) (fst (g l))"
    by (cases a; cases "g l") (simp add: merge_range_def)
  then show ?case
    using Cons.IH [of "merge_range a (g l)"]
    by (cases "ls = []") (simp_all add: min.assoc)
qed

lemma fold_merge_max:
  "fst (snd (fold (\<lambda>l acc. merge_range acc (g l)) ls a)) =
     Max (set (fst (snd a) # map (\<lambda>l. fst (snd (g l))) ls))"
proof (induction ls arbitrary: a)
  case Nil
  show ?case by simp
next
  case (Cons l ls)
  have "fst (snd (merge_range a (g l))) = max (fst (snd a)) (fst (snd (g l)))"
    by (cases a; cases "g l") (simp add: merge_range_def)
  then show ?case
    using Cons.IH [of "merge_range a (g l)"]
    by (cases "ls = []") (simp_all add: max.assoc)
qed

lemma fold_merge_step:
  "snd (snd (fold (\<lambda>l acc. merge_range acc (g l)) ls a)) =
     Min (set (snd (snd a) # map (\<lambda>l. snd (snd (g l))) ls))"
proof (induction ls arbitrary: a)
  case Nil
  show ?case by simp
next
  case (Cons l ls)
  have "snd (snd (merge_range a (g l))) = min (snd (snd a)) (snd (snd (g l)))"
    by (cases a; cases "g l") (simp add: merge_range_def)
  then show ?case
    using Cons.IH [of "merge_range a (g l)"]
    by (cases "ls = []") (simp_all add: min.assoc)
qed

lemma Min_without_top:
  assumes "filter P ls \<noteq> []" and "\<forall>l\<in>set ls. \<not> P l \<longrightarrow> f l = PInf"
  shows "Min (set (PInf # map f ls)) = Min (set (map f (filter P ls)))"
proof (rule Min_eqI)
  let ?A = "set (map f (filter P ls))"
  from assms(1) have ne: "?A \<noteq> {}" by (auto simp: filter_empty_conv)
  show "finite (set (PInf # map f ls))" by simp
  show "Min ?A \<le> y" if "y \<in> set (PInf # map f ls)" for y
  proof -
    from that consider "y = PInf" | l where "l \<in> set ls" "y = f l" by auto
    then show ?thesis
    proof cases
      case 1
      then show ?thesis by simp
    next
      case 2
      show ?thesis
      proof (cases "P l")
        case True
        with 2 have "y \<in> ?A" by auto
        then show ?thesis by simp
      next
        case False
        with 2 assms(2) show ?thesis by simp
      qed
    qed
  qed
  have "Min ?A \<in> ?A" using ne by (intro Min_in) simp
  then show "Min ?A \<in> set (PInf # map f ls)" by auto
qed

lemma Max_without_bot:
  assumes "filter P ls \<noteq> []" and "\<forall>l\<in>set ls. \<not> P l \<longrightarrow> f l = MInf"
  shows "Max (set (MInf # map f ls)) = Max (set (map f (filter P ls)))"
proof (rule Max_eqI)
  let ?A = "set (map f (filter P ls))"
  from assms(1) have ne: "?A \<noteq> {}" by (auto simp: filter_empty_conv)
  show "finite (set (MInf # map f ls))" by simp
  show "y \<le> Max ?A" if "y \<in> set (MInf # map f ls)" for y
  proof -
    from that consider "y = MInf" | l where "l \<in> set ls" "y = f l" by auto
    then show ?thesis
    proof cases
      case 1
      then show ?thesis by simp
    next
      case 2
      show ?thesis
      proof (cases "P l")
        case True
        with 2 have "y \<in> ?A" by auto
        then show ?thesis by simp
      next
        case False
        with 2 assms(2) show ?thesis by simp
      qed
    qed
  qed
  have "Max ?A \<in> ?A" using ne by (intro Max_in) simp
  then show "Max ?A \<in> set (MInf # map f ls)" by auto
qed


lemma layer_ndim_le_num_dims:
  "l \<in> set ls \<Longrightarrow> layer_ndim l \<le> calc_layers_num_dims ls"
  by (simp add: calc_layers_num_dims_Max)

lemma num_dims_attained:
  assumes "0 < calc_layers_num_dims ls"
  shows "\<exists>l\<in>set ls. layer_ndim l = calc_layers_num_dims ls"
proof -
  have "Max (insert 0 (layer_ndim ` set ls)) \<in> insert 0 (layer_ndim ` set ls)"
    by (intro Max_in) simp_all
  with assms show ?thesis
    by (auto simp: calc_layers_num_dims_Max)
qed

lemma calc_layers_ranges_length:
  assumes "\<forall>l\<in>set ls. layer_ndim l = length (drange (layer_dims l))"
  shows "length (calc_layers_ranges ls) = calc_layers_num_dims ls"
proof -
  let ?n = "calc_layers_num_dims ls"
  from assms have "(\<lambda>l. length (drange (layer_dims l))) ` set ls = layer_ndim ` set ls"
    by (intro image_cong) simp_all
  then have "length (calc_layers_ranges ls) = Max (insert ?n (layer_ndim ` set ls))"
    by (simp add: calc_layers_ranges_def fold_merge_length)
  also have "\<dots> = ?n"
  proof (rule Max_eqI)
    show "finite (insert ?n (layer_ndim ` set ls))" by simp
    show "y \<le> ?n" if "y \<in> insert ?n (layer_ndim ` set ls)" for y
      using that by (auto simp: layer_ndim_le_num_dims)
    show "?n \<in> insert ?n (layer_ndim ` set ls)" by simp
  qed
  finally show ?thesis .
qed

lemma aligned_entry:
  assumes "l \<in> set ls" and "layer_ndim l = length (drange (layer_dims l))"
    and "i < calc_layers_num_dims ls"
  shows "nth_default empty_range (rev (drange (layer_dims l))) (calc_layers_num_dims ls - Suc i) =
     (if calc_layers_num_dims ls - layer_ndim l \<le> i
      then drange (layer_dims l) ! (i - (calc_layers_num_dims ls - layer_ndim l))
      else empty_range)"
proof -
  let ?n = "calc_layers_num_dims ls"
  let ?xs = "drange (layer_dims l)"
  from assms(1) have le: "layer_ndim l \<le> ?n" by (rule layer_ndim_le_num_dims)
  show ?thesis
  proof (cases "?n - layer_ndim l \<le> i")
    case True
    with le assms(2,3) have k: "?n - Suc i < length ?xs" by linarith
    then have "rev ?xs ! (?n - Suc i) = ?xs ! (length ?xs - Suc (?n - Suc i))"
      by (rule rev_nth)
    moreover from True le assms(2,3)
    have "length ?xs - Suc (?n - Suc i) = i - (?n - layer_ndim l)" by linarith
    ultimately show ?thesis using True k by (simp add: nth_default_def)
  next
    case False
    with le assms(2,3) have "\<not> ?n - Suc i < length ?xs" by linarith
    with False show ?thesis by (simp add: nth_default_def)
  qed
qed

lemma calc_layers_ranges_nth:
  assumes ok: "\<forall>l\<in>set ls. layer_ndim l = length (drange (layer_dims l))"
    and i: "i < calc_layers_num_dims ls"
  shows "calc_layers_ranges ls ! i =
     (Min (set (map (\<lambda>l. fst (drange (layer_dims l) ! (i - (calc_layers_num_dims ls - layer_ndim l))))
        (filter (\<lambda>l. calc_layers_num_dims ls - layer_ndim l \<le> i) ls))),
      Max (set (map (\<lambda>l. fst (snd (drange (layer_dims l) ! (i - (calc_layers_num_dims ls - layer_ndim l)))))
        (filter (\<lambda>l. calc_layers_num_dims ls - layer_ndim l \<le> i) ls))),
      Min (set (map (\<lambda>l. snd (snd (drange (layer_dims l) ! (i - (calc_layers_num_dims ls - layer_ndim l)))))
        (filter (\<lambda>l. calc_layers_num_dims ls - layer_ndim l \<le> i) ls))))"
proof -
  let ?n = "calc_layers_num_dims ls"
  let ?P = "\<lambda>l. ?n - layer_ndim l \<le> i"
  let ?al = "\<lambda>l. drange (layer_dims l) ! (i - (?n - layer_ndim l))"
  let ?g = "\<lambda>l. nth_default empty_range (rev (drange (layer_dims l))) (?n - Suc i)"
  let ?acc = "fold merge_layer ls (replicate ?n empty_range)"
  have len: "length ?acc = ?n"
    using calc_layers_ranges_length [OF ok] by (simp add: calc_layers_ranges_def)
  with i have "calc_layers_ranges ls ! i = ?acc ! (?n - Suc i)"
    by (simp add: calc_layers_ranges_def rev_nth)
  also from i len have "\<dots> = nth_default empty_range ?acc (?n - Suc i)"
    by (simp add: nth_default_def)
  also have "\<dots> = fold (\<lambda>l acc. merge_range acc (?g l)) ls empty_range"
  proof -
    have "nth_default empty_range (replicate ?n empty_range) (?n - Suc i) = empty_range"
      by (simp add: nth_default_def)
    then show ?thesis by (simp only: fold_merge_nth)
  qed
  finally have eq: "calc_layers_ranges ls ! i = fold (\<lambda>l acc. merge_range acc (?g l)) ls empty_range" .
  have g: "?g l = (if ?P l then ?al l else empty_range)" if "l \<in> set ls" for l
    using aligned_entry [OF that _ i] ok that by simp
  from i num_dims_attained [of ls] obtain l0 where "l0 \<in> set ls" "layer_ndim l0 = ?n"
    by auto
  then have "l0 \<in> set ls \<and> ?P l0" by simp
  then have ne: "filter ?P ls \<noteq> []"
    unfolding filter_empty_conv by blast
  have gN: "\<forall>l\<in>set ls. \<not> ?P l \<longrightarrow> ?g l = (PInf, MInf, PInf)"
    by (simp add: g) (simp add: empty_range_def)
  have gP: "map (\<lambda>l. h (?g l)) (filter ?P ls) = map (\<lambda>l. h (?al l)) (filter ?P ls)" for h :: "ext \<times> ext \<times> ext \<Rightarrow> ext"
    by (rule map_cong) (simp_all add: g)
  have "fst (calc_layers_ranges ls ! i) = Min (set (PInf # map (\<lambda>l. fst (?g l)) ls))"
    by (simp add: eq fold_merge_fst empty_range_def)
  also have "\<dots> = Min (set (map (\<lambda>l. fst (?g l)) (filter ?P ls)))"
    by (rule Min_without_top [OF ne]) (simp add: gN)
  finally have 1: "fst (calc_layers_ranges ls ! i) = Min (set (map (\<lambda>l. fst (?al l)) (filter ?P ls)))"
    by (simp only: gP)
  have "fst (snd (calc_layers_ranges ls ! i)) = Max (set (MInf # map (\<lambda>l. fst (snd (?g l))) ls))"
    by (simp add: eq fold_merge_max empty_range_def)
  also have "\<dots> = Max (set (map (\<lambda>l. fst (snd (?g l))) (filter ?P ls)))"
    by (rule Max_without_bot [OF ne]) (simp add: gN)
  finally have 2: "fst (snd (calc_layers_ranges ls ! i)) =
      Max (set (map (\<lambda>l. fst (snd (?al l))) (filter ?P ls)))"
    by (simp only: gP [of "\<lambda>r. fst (snd r)"])
  have "snd (snd (calc_layers_ranges ls ! i)) = Min (set (PInf # map (\<lambda>l. snd (snd (?g l))) ls))"
    by (simp add: eq fold_merge_step empty_range_def)
  also have "\<dots> = Min (set (map (\<lambda>l. snd (snd (?g l))) (filter ?P ls)))"
    by (rule Min_without_top [OF ne]) (simp add: gN)
  finally have 3: "snd (snd (calc_layers_ranges ls ! i)) =
      Min (set (map (\<lambda>l. snd (snd (?al l))) (filter ?P ls)))"
    by (simp only: gP [of "\<lambda>r. snd (snd r)"])
  from 1 2 3 show ?thesis
    by (metis prod.collapse)
qed


lemma set_ndim_fields:
  assumes "length (drange d) = ndim d"
  shows "ndim (set_ndim d n) = n" and "length (drange (set_ndim d n)) = n"
  using assms by (auto simp: set_ndim_def Let_def)

lemma set_range_Inr:
  assumes "i < ndim d"
  shows "\<exists>d'. set_range d i r = Inr d' \<and> ndim d' = ndim d \<and> drange d' = (drange d)[i := r]"
  using assms by (simp add: set_range_def Let_def)

lemma set_ranges_Inr:
  assumes "i + length rs \<le> ndim d" and "length (drange d) = ndim d"
  shows "\<exists>d'. set_ranges d i rs = Inr d' \<and> ndim d' = ndim d \<and> length (drange d') = ndim d \<and>
     (\<forall>j<length rs. drange d' ! (i + j) = rs ! j) \<and> (\<forall>j<i. drange d' ! j = drange d ! j)"
  using assms
proof (induction rs arbitrary: d i)
  case Nil
  then show ?case by simp
next
  case (Cons r rs)
  from Cons.prems have "i < ndim d" by simp
  from set_range_Inr [OF this, of r] obtain d1 where
    d1: "set_range d i r = Inr d1" "ndim d1 = ndim d" "drange d1 = (drange d)[i := r]"
    by blast
  from Cons.prems d1 have "Suc i + length rs \<le> ndim d1" "length (drange d1) = ndim d1"
    by simp_all
  from Cons.IH [OF this] obtain d' where
    d': "set_ranges d1 (Suc i) rs = Inr d'" "ndim d' = ndim d1" "length (drange d') = ndim d1"
      "\<forall>j<length rs. drange d' ! (Suc i + j) = rs ! j" "\<forall>j<Suc i. drange d' ! j = drange d1 ! j"
    by blast
  have "drange d' ! (i + j) = (r # rs) ! j" if "j < length (r # rs)" for j
  proof (cases j)
    case 0
    with d'(5) d1(3) Cons.prems show ?thesis by simp
  next
    case (Suc j')
    with that d'(4) show ?thesis by simp
  qed
  moreover have "drange d' ! j = drange d ! j" if "j < i" for j
    using that d'(5) d1(3) by simp
  ultimately show ?case using d1 d' by simp
qed

text \<open>
  C4. When every layer's \<open>ndim\<close> is the length of its range list, \<open>_on_layers_change\<close>
  returns with the global \<open>ndim\<close> equal to the maximum layer \<open>ndim\<close> (0 for no layers),
  and on every global axis \<open>i\<close> the global range is (minimum of the minima, maximum of the
  maxima, minimum of the steps) over the layers that have the axis, where a layer of rank
  \<open>m\<close> has the global axes \<open>i \<ge> n - m\<close> and its own axis \<open>i - (n - m)\<close> is the one aligned
  with \<open>i\<close> (alignment from the trailing axis); at least one layer has each axis.
\<close>

theorem on_layers_change_ranges:
  assumes "length (drange (vdims v)) = ndim (vdims v)"
    and "\<forall>l\<in>set (layers v). layer_ndim l = length (drange (layer_dims l))"
  shows "\<exists>v'. on_layers_change v = Inr v' \<and> layers v' = layers v \<and>
     ndim (vdims v') = Max (insert 0 (layer_ndim ` set (layers v))) \<and>
     (\<forall>i<ndim (vdims v').
        let n = ndim (vdims v');
            has = filter (\<lambda>l. n - layer_ndim l \<le> i) (layers v);
            al = (\<lambda>l. drange (layer_dims l) ! (i - (n - layer_ndim l)))
        in has \<noteq> [] \<and>
           drange (vdims v') ! i =
             (Min (set (map (\<lambda>l. fst (al l)) has)),
              Max (set (map (\<lambda>l. fst (snd (al l))) has)),
              Min (set (map (\<lambda>l. snd (snd (al l))) has))))"
proof -
  let ?ls = "layers v"
  let ?n = "calc_layers_num_dims ?ls"
  let ?rs = "calc_layers_ranges ?ls"
  let ?d0 = "set_ndim (vdims v) (length ?rs)"
  have len: "length ?rs = ?n" by (rule calc_layers_ranges_length [OF assms(2)])
  from set_ndim_fields [OF assms(1), of "length ?rs"]
  have d0: "ndim ?d0 = ?n" "length (drange ?d0) = ?n" by (simp_all add: len)
  then have "0 + length ?rs \<le> ndim ?d0" "length (drange ?d0) = ndim ?d0"
    by (simp_all add: len)
  from set_ranges_Inr [OF this] obtain d' where
    raw: "set_ranges ?d0 0 ?rs = Inr d'" "ndim d' = ndim ?d0"
      "\<forall>j<length ?rs. drange d' ! (0 + j) = ?rs ! j"
    by blast
  from raw(2) d0(1) have nd': "ndim d' = ?n" by simp
  from raw(3) have rs': "\<forall>j<?n. drange d' ! j = ?rs ! j" by (simp add: len)
  note d' = raw(1) nd' rs'
  let ?v' = "v\<lparr>vdims := d'\<rparr>"
  have run: "on_layers_change v = Inr ?v'"
    using d'(1) by (simp add: on_layers_change_def Let_def)
  have nd: "ndim (vdims ?v') = Max (insert 0 (layer_ndim ` set ?ls))"
    using d'(2) by (simp add: calc_layers_num_dims_Max)
  have rng: "\<forall>i<ndim (vdims ?v').
        let n = ndim (vdims ?v');
            has = filter (\<lambda>l. n - layer_ndim l \<le> i) ?ls;
            al = (\<lambda>l. drange (layer_dims l) ! (i - (n - layer_ndim l)))
        in has \<noteq> [] \<and>
           drange (vdims ?v') ! i =
             (Min (set (map (\<lambda>l. fst (al l)) has)),
              Max (set (map (\<lambda>l. fst (snd (al l))) has)),
              Min (set (map (\<lambda>l. snd (snd (al l))) has)))"
  proof (intro allI impI)
    fix i assume "i < ndim (vdims ?v')"
    with d'(2) have i: "i < ?n" by simp
    from i num_dims_attained [of ?ls] obtain l0 where "l0 \<in> set ?ls" "layer_ndim l0 = ?n"
      by auto
    then have "l0 \<in> set ?ls \<and> ?n - layer_ndim l0 \<le> i" by simp
    then have ne: "filter (\<lambda>l. ?n - layer_ndim l \<le> i) ?ls \<noteq> []"
      unfolding filter_empty_conv by blast
    from d'(3) i have "drange d' ! i = ?rs ! i" by simp
    with calc_layers_ranges_nth [OF assms(2) i] ne d'(2)
    show "let n = ndim (vdims ?v');
            has = filter (\<lambda>l. n - layer_ndim l \<le> i) ?ls;
            al = (\<lambda>l. drange (layer_dims l) ! (i - (n - layer_ndim l)))
        in has \<noteq> [] \<and>
           drange (vdims ?v') ! i =
             (Min (set (map (\<lambda>l. fst (al l)) has)),
              Max (set (map (\<lambda>l. fst (snd (al l))) has)),
              Min (set (map (\<lambda>l. snd (snd (al l))) has)))"
      by (simp add: Let_def)
  qed
  have "layers ?v' = layers v" by simp
  with run nd rng show ?thesis by blast
qed

theorem on_layers_change_ranges_witness:
  "length (drange (vdims ex_viewer)) = ndim (vdims ex_viewer) \<and>
   list_all (\<lambda>l. layer_ndim l = length (drange (layer_dims l))) (layers ex_viewer) \<and>
   (\<exists>v'. on_layers_change ex_viewer = Inr v' \<and> ndim (vdims v') = 3 \<and>
      drange (vdims v') ! 1 = (Fin 0, Fin 18, Fin 1) \<and>
      drange (vdims v') ! 2 = (Fin 0, Fin 19, Fin 1))"
proof -
  have a: "length (drange (vdims ex_viewer)) = ndim (vdims ex_viewer)"
    by (simp add: ex_viewer_def ex_dims3_def)
  have b: "\<forall>l\<in>set (layers ex_viewer). layer_ndim l = length (drange (layer_dims l))"
    by (simp add: ex_viewer_def ex_image_def ex_points_def ex_dims3_def ex_dims2_def)
  have m: "Max (insert 0 (layer_ndim ` set (layers ex_viewer))) = 3"
    by (simp add: ex_viewer_def ex_image_def ex_points_def)
  from on_layers_change_ranges [OF a b] obtain v' where
    run: "on_layers_change ex_viewer = Inr v'" and nd: "ndim (vdims v') = 3" and
    rng: "\<forall>i<3. drange (vdims v') ! i =
      (Min (set (map (\<lambda>l. fst (drange (layer_dims l) ! (i - (3 - layer_ndim l))))
         (filter (\<lambda>l. 3 - layer_ndim l \<le> i) (layers ex_viewer)))),
       Max (set (map (\<lambda>l. fst (snd (drange (layer_dims l) ! (i - (3 - layer_ndim l)))))
         (filter (\<lambda>l. 3 - layer_ndim l \<le> i) (layers ex_viewer)))),
       Min (set (map (\<lambda>l. snd (snd (drange (layer_dims l) ! (i - (3 - layer_ndim l)))))
         (filter (\<lambda>l. 3 - layer_ndim l \<le> i) (layers ex_viewer)))))"
    unfolding m Let_def by auto
  from rng have "drange (vdims v') ! 1 = (Fin 0, Fin 18, Fin 1)"
    by (simp add: ex_viewer_def ex_image_def ex_points_def ex_dims3_def ex_dims2_def
        min_def max_def)
  moreover from rng have "drange (vdims v') ! 2 = (Fin 0, Fin 19, Fin 1)"
    by (simp add: ex_viewer_def ex_image_def ex_points_def ex_dims3_def ex_dims2_def
        min_def max_def)
  ultimately show ?thesis
    using a b run nd by (auto simp: list_all_iff)
qed

section \<open>Reading and painting labels\<close>

lemma pick_all:
  "\<forall>d\<in>set ds. d < length xs \<Longrightarrow> pick xs ds = Inr (map (\<lambda>d. xs ! d) ds)"
  by (induction ds) simp_all

lemma select_Idx:
  "list_all2 (\<lambda>c n. 0 \<le> c \<and> c < int n) cd sh \<Longrightarrow>
     select sh (map Idx cd) = Inr (map (\<lambda>c. [nat c]) cd)"
  by (induction cd sh rule: list_all2_induct) simp_all

lemma kept_Idx: "length ps = length cd \<Longrightarrow> kept (map Idx cd) ps = []"
  by (induction cd arbitrary: ps) (auto simp: length_Suc_conv)

lemma embed_Idx: "embed (map Idx cd) (map (\<lambda>c. [nat c]) cd) j = map nat cd"
  by (induction cd) simp_all

lemma getitem_Idx:
  assumes "list_all2 (\<lambda>c n. 0 \<le> c \<and> c < int n) cd (shape a)"
  shows "\<exists>v. getitem a (map Idx cd) = Inr v \<and> shape v = [] \<and> cell v [] = cell a (map nat cd)"
  using assms by (simp add: getitem_def select_Idx kept_Idx embed_Idx)

text \<open>
  C8. In a layer whose displayed axes are axes of the cursor coordinate and whose slice has
  one axis per displayed axis, \<open>get_value\<close> never raises: it returns \<open>None\<close> exactly when
  some rounded coordinate on a displayed axis is outside the bounds of the displayed slice,
  and otherwise the label of the slice at the rounded coordinates.
\<close>

theorem get_value_none_iff_outside:
  assumes "\<forall>d\<in>set (displayed (dims s)). d < length (coordinates s)"
    and "length (displayed (dims s)) = length (shape (data_labels s))"
  shows "let cd = map (\<lambda>d. np_round (coordinates s ! d)) (displayed (dims s));
             inside = list_all2 (\<lambda>c n. 0 \<le> c \<and> c < int n) cd (shape (data_labels s))
         in (get_value s = Inr None \<longleftrightarrow> \<not> inside) \<and>
            (inside \<longrightarrow> (\<exists>v. get_value s = Inr (Some v) \<and> shape v = [] \<and>
               cell v [] = cell (data_labels s) (map nat cd)))"
proof -
  let ?cd = "map (\<lambda>d. np_round (coordinates s ! d)) (displayed (dims s))"
  let ?sh = "shape (data_labels s)"
  let ?inside = "list_all2 (\<lambda>c n. 0 \<le> c \<and> c < int n) ?cd ?sh"
  from assms(1) have pk: "pick (map np_round (coordinates s)) (displayed (dims s)) = Inr ?cd"
    by (simp add: pick_all)
  from assms(2) have test: "list_all (\<lambda>(c, n). 0 \<le> c \<and> c < int n) (zip ?cd ?sh) = ?inside"
    by (simp add: list_all2_iff list_all_iff)
  show ?thesis
  proof (cases ?inside)
    case True
    from getitem_Idx [OF True] obtain v where
      v: "getitem (data_labels s) (map Idx ?cd) = Inr v" "shape v = []"
         "cell v [] = cell (data_labels s) (map nat ?cd)"
      by blast
    from pk test True v(1) have "get_value s = Inr (Some v)"
      by (simp add: get_value_def Let_def)
    with True v show ?thesis by (simp add: Let_def)
  next
    case False
    with pk test have "get_value s = Inr None"
      by (simp add: get_value_def Let_def)
    with False show ?thesis by (simp add: Let_def)
  qed
qed


lemma np_round_clip:
  "0 \<le> np_round (np_clip x 0 (real n)) \<and> np_round (np_clip x 0 (real n)) \<le> int n"
proof -
  let ?y = "np_clip x 0 (real n)"
  have y: "0 \<le> ?y" "?y \<le> real n"
    by (simp_all add: np_clip_def)
  then have f: "0 \<le> \<lfloor>?y\<rfloor>" "\<lfloor>?y\<rfloor> \<le> int n"
    by (simp_all add: floor_le_iff le_floor_iff)
  have up: "\<lfloor>?y\<rfloor> + 1 \<le> int n" if "0 < ?y - real_of_int \<lfloor>?y\<rfloor>"
  proof -
    from that y(2) have "real_of_int \<lfloor>?y\<rfloor> < real n" by linarith
    then have "\<lfloor>?y\<rfloor> < int n" by linarith
    then show ?thesis by simp
  qed
  show ?thesis
    unfolding np_round_def Let_def using f up by auto
qed

lemma brush_slice_clipped: "slice_clipped (brush_slice bs c n, n)"
  using np_round_clip by (simp add: slice_clipped_def brush_slice_def)

lemma paint_displayed_clipped:
  assumes "paint_displayed s coord is sc = Inr sc'"
    and "\<forall>i<length sc. i < length (shape (data s)) \<longrightarrow> slice_clipped (sc ! i, shape (data s) ! i)"
  shows "length sc' = length sc \<and>
     (\<forall>i<length sc'. i < length (shape (data s)) \<longrightarrow> slice_clipped (sc' ! i, shape (data s) ! i))"
  using assms
proof (induction "is" arbitrary: sc)
  case Nil
  then show ?case by simp
next
  case (Cons i "is")
  let ?sc1 = "sc[i := brush_slice (brush_size s) (coord ! i) (shape (data s) ! i)]"
  from Cons.prems(1) have run: "paint_displayed s coord is ?sc1 = Inr sc'"
    by (simp split: if_splits)
  have "\<forall>k<length ?sc1. k < length (shape (data s)) \<longrightarrow>
      slice_clipped (?sc1 ! k, shape (data s) ! k)"
  proof (intro allI impI)
    fix k assume k: "k < length ?sc1" "k < length (shape (data s))"
    show "slice_clipped (?sc1 ! k, shape (data s) ! k)"
    proof (cases "k = i")
      case True
      with k show ?thesis by (simp add: brush_slice_clipped)
    next
      case False
      with k Cons.prems(2) show ?thesis by simp
    qed
  qed
  from Cons.IH [OF run this] show ?case by simp
qed

lemma paint_pinned_clipped:
  assumes "paint_pinned coord is sc = Inr sc'"
    and "\<forall>i<length sc. i < length sh \<longrightarrow> slice_clipped (sc ! i, sh ! i)"
  shows "length sc' = length sc \<and>
     (\<forall>i<length sc'. i < length sh \<longrightarrow> slice_clipped (sc' ! i, sh ! i))"
  using assms
proof (induction "is" arbitrary: sc)
  case Nil
  then show ?case by simp
next
  case (Cons i "is")
  let ?sc1 = "sc[i := Idx (np_round (coord ! i))]"
  from Cons.prems(1) have run: "paint_pinned coord is ?sc1 = Inr sc'"
    by (simp split: if_splits)
  have "\<forall>k<length ?sc1. k < length sh \<longrightarrow> slice_clipped (?sc1 ! k, sh ! k)"
  proof (intro allI impI)
    fix k assume k: "k < length ?sc1" "k < length sh"
    show "slice_clipped (?sc1 ! k, sh ! k)"
    proof (cases "k = i")
      case True
      with k show ?thesis by (simp add: slice_clipped_def)
    next
      case False
      with k Cons.prems(2) show ?thesis by simp
    qed
  qed
  from Cons.IH [OF run this] show ?case by simp
qed

lemma paint_index_clipped:
  assumes "paint_index s coord = Inr sc"
  shows "list_all slice_clipped (zip sc (shape (data s)))"
proof (cases "n_dimensional s \<or> get_ndim s = 2")
  case True
  with assms have sc: "sc = map (\<lambda>(c, n). brush_slice (brush_size s) c n) (zip coord (shape (data s)))"
    by (simp add: paint_index_def)
  have "\<forall>(i, n)\<in>set (zip sc (shape (data s))). slice_clipped (i, n)"
    unfolding sc
    by (auto simp: set_zip brush_slice_clipped)
  then show ?thesis by (auto simp: list_all_iff)
next
  case False
  with assms obtain sc0 where
    a: "paint_displayed s coord (displayed (dims s)) (replicate (get_ndim s) (Idx 0)) = Inr sc0"
    and b: "paint_pinned coord (not_displayed (dims s)) sc0 = Inr sc"
    by (auto simp: paint_index_def bind_err_eq_Inr)
  have "\<forall>i<length (replicate (get_ndim s) (Idx 0)). i < length (shape (data s)) \<longrightarrow>
      slice_clipped (replicate (get_ndim s) (Idx 0) ! i, shape (data s) ! i)"
    by (simp add: slice_clipped_def)
  from paint_displayed_clipped [OF a this]
  have "\<forall>i<length sc0. i < length (shape (data s)) \<longrightarrow> slice_clipped (sc0 ! i, shape (data s) ! i)"
    by simp
  from paint_pinned_clipped [OF b this]
  have "\<forall>i<length sc. i < length (shape (data s)) \<longrightarrow> slice_clipped (sc ! i, shape (data s) ! i)"
    by simp
  then show ?thesis
    by (auto simp: list_all_iff set_zip)
qed

lemma slice_bound_le: "slice_bound n a \<le> n"
proof (cases "a < 0")
  case True
  then have "nat (max 0 (a + int n)) \<le> n" by linarith
  with True show ?thesis by (simp add: slice_bound_def)
next
  case False
  then show ?thesis by (simp add: slice_bound_def)
qed

lemma axis_sel_bounds: "axis_sel n i = Inr p \<Longrightarrow> \<forall>x\<in>set p. x < n"
  using slice_bound_le [of n]
  by (cases i) (auto split: if_splits intro: less_le_trans)

lemma select_bounds:
  "select sh specs = Inr ps \<Longrightarrow> list_all2 (\<lambda>p n. \<forall>x\<in>set p. x < n) ps sh"
proof (induction sh specs arbitrary: ps rule: select.induct)
  case 1
  then show ?case by simp
next
  case (2 i "is")
  then show ?case by simp
next
  case (3 n ns)
  then show ?case by (auto simp: bind_err_eq_Inr)
next
  case (4 n ns i "is")
  then show ?case by (auto simp: bind_err_eq_Inr dest: axis_sel_bounds)
qed

lemma selected_in_bounds:
  assumes "select sh specs = Inr ps" and "selected ps idx"
  shows "in_bounds sh idx"
proof -
  from assms(2) have a: "list_all2 (\<lambda>i p. i \<in> set p) idx ps" by (simp add: selected_def)
  from select_bounds [OF assms(1)] have b: "list_all2 (\<lambda>p n. \<forall>x\<in>set p. x < n) ps sh" .
  from list_all2_trans [of "\<lambda>i p. i \<in> set p" "\<lambda>p n. \<forall>x\<in>set p. x < n" "\<lambda>i n. i < n", OF _ a b]
  show ?thesis by (simp add: in_bounds_def)
qed

lemma set_view_slice_data: "set_view_slice s = Inr s' \<Longrightarrow> data s' = data s"
  by (auto simp: set_view_slice_def bind_err_eq_Inr)

text \<open>
  C3. For every layer state, coordinate, brush size and label: the assignment of \<open>paint\<close>
  keeps the shape of the data and changes only cells whose index is inside the bounds on
  every axis, each to the new label; a returning \<open>paint\<close> leaves exactly this data; and
  every slice of the index has both bounds between 0 and the length of its axis, in the
  slice-scoped branch as well, where the non-displayed axes carry the rounded coordinate.
\<close>

theorem paint_in_bounds:
  "(\<forall>a. paint_write s coord new_label = Inr a \<longrightarrow>
      shape a = shape (data s) \<and>
      (\<forall>idx. cell a idx \<noteq> cell (data s) idx \<longrightarrow>
         in_bounds (shape (data s)) idx \<and> cell a idx = new_label)) \<and>
   (\<forall>s'. paint s coord new_label = Inr s' \<longrightarrow> paint_write s coord new_label = Inr (data s')) \<and>
   (\<forall>sc. paint_index s coord = Inr sc \<longrightarrow> list_all slice_clipped (zip sc (shape (data s))))"
proof (intro conjI allI impI)
  fix a assume w: "paint_write s coord new_label = Inr a"
  then obtain sc ps where sc: "paint_index s coord = Inr sc"
    and ps: "select (shape (data s)) sc = Inr ps"
    and a: "a = (data s)\<lparr>cell := (\<lambda>idx. if selected ps idx then new_label else cell (data s) idx)\<rparr>"
    by (auto simp: paint_write_def setitem_scalar_def bind_err_eq_Inr)
  from a show "shape a = shape (data s)" by simp
  fix idx assume "cell a idx \<noteq> cell (data s) idx"
  with a have sel: "selected ps idx" by (simp split: if_splits)
  from selected_in_bounds [OF ps sel] show "in_bounds (shape (data s)) idx" .
  from a sel show "cell a idx = new_label" by simp
next
  fix s' assume "paint s coord new_label = Inr s'"
  then obtain a where a: "paint_write s coord new_label = Inr a"
    and v: "set_view_slice (s\<lparr>data := a\<rparr>) = Inr s'"
    by (auto simp: paint_def bind_err_eq_Inr)
  from set_view_slice_data [OF v] a show "paint_write s coord new_label = Inr (data s')" by simp
next
  fix sc assume "paint_index s coord = Inr sc"
  then show "list_all slice_clipped (zip sc (shape (data s)))" by (rule paint_index_clipped)
qed


lemma np_round_int [simp]: "np_round (real_of_int k) = k" "np_round 0 = 0" "np_round 1 = 1"
  "np_round 2 = 2" "np_round 3 = 3"
  by (simp_all add: np_round_def)

lemma ex_labels_displayed: "displayed (dims ex_labels) = [0, 1]"
  by (simp add: displayed_def ex_labels_def)

theorem get_value_none_iff_outside_witness:
  "get_value (ex_labels\<lparr>coordinates := [2, 0]\<rparr>) = Inr None \<and>
   (\<exists>v. get_value (ex_labels\<lparr>coordinates := [1, 0]\<rparr>) = Inr (Some v) \<and> shape v = [] \<and>
      cell v [] = 1)"
proof -
  note d = ex_labels_displayed
  have sh: "shape (data_labels ex_labels) = [2, 3]"
    by (simp add: ex_labels_def)
  have 1: "get_value (ex_labels\<lparr>coordinates := [2, 0]\<rparr>) = Inr None"
    using get_value_none_iff_outside [of "ex_labels\<lparr>coordinates := [2, 0]\<rparr>"]
    by (simp add: d sh Let_def)
  have 2: "\<exists>v. get_value (ex_labels\<lparr>coordinates := [1, 0]\<rparr>) = Inr (Some v) \<and> shape v = [] \<and>
      cell v [] = cell (data_labels (ex_labels\<lparr>coordinates := [1, 0]\<rparr>)) [1, 0]"
    using get_value_none_iff_outside [of "ex_labels\<lparr>coordinates := [1, 0]\<rparr>"]
    by (simp add: d sh Let_def)
  have "cell (data_labels (ex_labels\<lparr>coordinates := [1, 0]\<rparr>)) [1, 0] = 1"
    by (simp add: ex_labels_def)
  with 1 2 show ?thesis by simp
qed

theorem paint_in_bounds_witness:
  "\<exists>a. paint_write ex_labels [- 3, 2] 9 = Inr a \<and> shape a = [2, 3] \<and>
     cell a [0, 0] = 9 \<and> cell a [2, 0] = cell (data ex_labels) [2, 0]"
proof -
  have sc: "paint_index ex_labels [- 3, 2] = Inr [Slice 0 2, Slice 0 3]"
    by (simp add: paint_index_def get_ndim_def ex_labels_def brush_slice_def np_clip_def)
  then obtain a where a: "paint_write ex_labels [- 3, 2] 9 = Inr a" and a0: "cell a [0, 0] = 9"
    by (simp add: paint_write_def setitem_scalar_def ex_labels_def slice_bound_def selected_def)
  from paint_in_bounds [of ex_labels "[- 3, 2]" 9] a
  have sh: "shape a = shape (data ex_labels)"
    and fr: "cell a [2, 0] \<noteq> cell (data ex_labels) [2, 0] \<longrightarrow>
       in_bounds (shape (data ex_labels)) [2, 0]"
    by blast+
  have "\<not> in_bounds (shape (data ex_labels)) [2, 0]"
    by (simp add: in_bounds_def ex_labels_def)
  with fr have "cell a [2, 0] = cell (data ex_labels) [2, 0]" by blast
  moreover from sh have "shape a = [2, 3]" by (simp add: ex_labels_def)
  ultimately show ?thesis using a a0 by blast
qed

section \<open>Filling labels\<close>

subsection \<open>Connected components\<close>

text \<open>
  \<open>component U c\<close> is the set of cells that chains of adjacent cells of \<open>U\<close> connect to \<open>c\<close>:
  the rounds of growth only add cells linked to one already there, and they reach a fixed
  point within \<open>length U\<close> rounds, which contains every cell so connected.
\<close>

lemma adjacent_sym: "adjacent c d \<Longrightarrow> adjacent d c"
proof -
  assume a: "adjacent c d"
  then have len: "length c = length d" by (simp add: adjacent_def)
  have "map (\<lambda>(x, y). if x \<le> y then y - x else x - y) (zip d c) =
      map (\<lambda>(x, y). if x \<le> y then y - x else x - y) (zip c d)"
    using len by (induction c d rule: list_induct2) auto
  with a show ?thesis by (simp add: adjacent_def)
qed

lemma linked_sym: "(c, d) \<in> linked U \<Longrightarrow> (d, c) \<in> linked U"
  by (auto simp: linked_def adjacent_sym)

lemma linked_rtrancl_sym: "(c, d) \<in> (linked U)\<^sup>* \<Longrightarrow> (d, c) \<in> (linked U)\<^sup>*"
proof (induction rule: rtrancl_induct)
  case base
  show ?case by simp
next
  case (step y z)
  from step.hyps(2) have "(z, y) \<in> linked U" by (rule linked_sym)
  with step.IH show ?case by (meson converse_rtrancl_into_rtrancl)
qed

lemma linked_rtrancl_in: "(c, d) \<in> (linked U)\<^sup>* \<Longrightarrow> c \<in> set U \<Longrightarrow> d \<in> set U"
  by (induction rule: rtrancl_induct) (auto simp: linked_def)

lemma set_grow: "set (grow U S) = grow_set U (set S)"
  by (auto simp: grow_def grow_set_def)

lemma set_grow_funpow: "set ((grow U ^^ n) S) = (grow_set U ^^ n) (set S)"
  by (induction n) (simp_all add: set_grow)

lemma grow_set_mono: "X \<subseteq> Y \<Longrightarrow> grow_set U X \<subseteq> grow_set U Y"
  by (auto simp: grow_set_def)

lemma grow_set_sub: "grow_set U X \<subseteq> set U"
  by (auto simp: grow_set_def)

lemma grow_set_incr: "X \<subseteq> set U \<Longrightarrow> X \<subseteq> grow_set U X"
  by (auto simp: grow_set_def)

lemma grow_chain:
  assumes "X \<subseteq> set U"
  shows "(grow_set U ^^ n) X \<subseteq> set U \<and> (grow_set U ^^ n) X \<subseteq> (grow_set U ^^ Suc n) X"
proof (induction n)
  case 0
  from assms show ?case by (simp add: grow_set_incr)
next
  case (Suc n)
  then show ?case
    using grow_set_sub [of U] grow_set_mono [of _ _ U] by simp
qed

lemma grow_sound:
  assumes "X \<subseteq> set U"
  shows "(grow_set U ^^ n) X \<subseteq> (linked U)\<^sup>* `` X"
proof (induction n)
  case 0
  show ?case by auto
next
  case (Suc n)
  show ?case
  proof
    fix d assume "d \<in> (grow_set U ^^ Suc n) X"
    then have d: "d \<in> set U" "d \<in> (grow_set U ^^ n) X \<or> (\<exists>c\<in>(grow_set U ^^ n) X. adjacent c d)"
      by (auto simp: grow_set_def)
    from d(2) show "d \<in> (linked U)\<^sup>* `` X"
    proof
      assume "d \<in> (grow_set U ^^ n) X"
      with Suc.IH show ?thesis by blast
    next
      assume "\<exists>c\<in>(grow_set U ^^ n) X. adjacent c d"
      then obtain c where c: "c \<in> (grow_set U ^^ n) X" "adjacent c d" by blast
      from c(1) grow_chain [OF assms, of n] have "c \<in> set U" by blast
      with c(2) d(1) have "(c, d) \<in> linked U" by (simp add: linked_def)
      moreover from c(1) Suc.IH obtain x where "x \<in> X" "(x, c) \<in> (linked U)\<^sup>*" by blast
      ultimately show ?thesis by (meson Image_iff rtrancl.rtrancl_into_rtrancl)
    qed
  qed
qed


lemma grow_start:
  assumes "X \<subseteq> set U"
  shows "X \<subseteq> (grow_set U ^^ n) X"
proof (induction n)
  case 0
  show ?case by simp
next
  case (Suc n)
  with grow_chain [OF assms, of n] show ?case by blast
qed

lemma grow_strict_card:
  assumes "X \<subseteq> set U" and "\<forall>k<n. (grow_set U ^^ k) X \<noteq> (grow_set U ^^ Suc k) X"
  shows "n \<le> card ((grow_set U ^^ n) X)"
  using assms(2)
proof (induction n)
  case 0
  show ?case by simp
next
  case (Suc n)
  then have ih: "n \<le> card ((grow_set U ^^ n) X)" by simp
  from Suc.prems have "(grow_set U ^^ n) X \<noteq> (grow_set U ^^ Suc n) X" by simp
  with grow_chain [OF assms(1), of n]
  have "(grow_set U ^^ n) X \<subset> (grow_set U ^^ Suc n) X" by blast
  moreover have "finite ((grow_set U ^^ Suc n) X)"
    using grow_chain [OF assms(1), of "Suc n"] by (meson finite_subset List.finite_set)
  ultimately have "card ((grow_set U ^^ n) X) < card ((grow_set U ^^ Suc n) X)"
    by (rule psubset_card_mono [rotated])
  with ih show ?case by simp
qed

lemma grow_stabilises:
  assumes "X \<subseteq> set U"
  shows "\<exists>k\<le>length U. (grow_set U ^^ k) X = (grow_set U ^^ Suc k) X"
proof (rule ccontr)
  assume "\<not> ?thesis"
  then have "\<forall>k<Suc (length U). (grow_set U ^^ k) X \<noteq> (grow_set U ^^ Suc k) X"
    by (simp add: less_Suc_eq_le)
  from grow_strict_card [OF assms this]
  have "Suc (length U) \<le> card ((grow_set U ^^ Suc (length U)) X)" .
  also have "\<dots> \<le> card (set U)"
    using grow_chain [OF assms, of "Suc (length U)"] by (intro card_mono) simp_all
  also have "\<dots> \<le> length U" by (rule card_length)
  finally show False by simp
qed

lemma grow_stable:
  assumes "(grow_set U ^^ k) X = (grow_set U ^^ Suc k) X"
  shows "(grow_set U ^^ (k + j)) X = (grow_set U ^^ k) X"
proof (induction j)
  case 0
  show ?case by simp
next
  case (Suc j)
  have "(grow_set U ^^ (k + Suc j)) X = grow_set U ((grow_set U ^^ (k + j)) X)" by simp
  also have "\<dots> = grow_set U ((grow_set U ^^ k) X)" by (simp only: Suc.IH)
  also have "\<dots> = (grow_set U ^^ k) X" using assms by simp
  finally show ?case .
qed

lemma grow_set_step: "y \<in> A \<Longrightarrow> z \<in> set U \<Longrightarrow> adjacent y z \<Longrightarrow> z \<in> grow_set U A"
  by (auto simp: grow_set_def)

lemma grow_complete:
  assumes "X \<subseteq> set U"
  shows "(linked U)\<^sup>* `` X \<subseteq> (grow_set U ^^ length U) X"
proof -
  let ?A = "(grow_set U ^^ length U) X"
  from grow_stabilises [OF assms] obtain k where
    k: "k \<le> length U" "(grow_set U ^^ k) X = (grow_set U ^^ Suc k) X" by blast
  from grow_stable [OF k(2), of "length U - k"] k(1)
  have A: "?A = (grow_set U ^^ k) X" by simp
  with k(2) have closed: "grow_set U ?A = ?A" by simp
  have "d \<in> ?A" if "x \<in> X" "(x, d) \<in> (linked U)\<^sup>*" for x d
    using that(2)
  proof (induction rule: rtrancl_induct)
    case base
    from that(1) grow_start [OF assms, of "length U"] show ?case by blast
  next
    case (step y z)
    from step.hyps(2) have "z \<in> set U" "adjacent y z" by (simp_all add: linked_def)
    with step.IH have "z \<in> grow_set U ?A" by (intro grow_set_step)
    with closed show ?case by simp
  qed
  then show ?thesis by blast
qed

lemma set_component:
  assumes "c \<in> set U"
  shows "set (component U c) = (linked U)\<^sup>* `` {c}"
proof -
  from assms have sub: "{c} \<subseteq> set U" by simp
  have "set (component U c) = (grow_set U ^^ length U) {c}"
    by (simp add: component_def set_grow_funpow)
  with grow_sound [OF sub, of "length U"] grow_complete [OF sub] show ?thesis by blast
qed

lemma component_filter:
  assumes "c \<in> set U"
  shows "component U c = filter (\<lambda>d. d \<in> set (component U c)) U"
proof -
  from assms obtain m where m: "length U = Suc m" by (cases U) auto
  define P where "P = (\<lambda>d. d \<in> set ((grow U ^^ m) [c]) \<or> (\<exists>a\<in>set ((grow U ^^ m) [c]). adjacent a d))"
  have eq: "component U c = filter P U"
    by (simp add: component_def m grow_def P_def)
  have "filter (\<lambda>d. d \<in> set (filter P U)) U = filter P U"
    by (rule filter_cong) simp_all
  with eq show ?thesis by simp
qed

lemma component_self: "c \<in> set U \<Longrightarrow> c \<in> set (component U c)"
  by (simp add: set_component)

lemma component_eq:
  assumes "c \<in> set U" and "d \<in> set (component U c)"
  shows "component U d = component U c"
proof -
  from assms have cd: "(c, d) \<in> (linked U)\<^sup>*" by (simp add: set_component)
  with assms(1) have dU: "d \<in> set U" by (rule linked_rtrancl_in [rotated])
  from cd have dc: "(d, c) \<in> (linked U)\<^sup>*" by (rule linked_rtrancl_sym)
  have "(linked U)\<^sup>* `` {d} = (linked U)\<^sup>* `` {c}"
    using cd dc by (auto intro: rtrancl_trans)
  with assms(1) dU have "set (component U d) = set (component U c)"
    by (simp add: set_component)
  with component_filter [OF assms(1)] component_filter [OF dU] show ?thesis by simp
qed

lemma hd_component:
  assumes "c \<in> set U"
  shows "hd (component U c) \<in> set (component U c)"
    and "hd (component U c) \<in> set U"
    and "component U (hd (component U c)) = component U c"
proof -
  from component_self [OF assms] have ne: "component U c \<noteq> []" by auto
  then show h: "hd (component U c) \<in> set (component U c)" by simp
  with assms show "hd (component U c) \<in> set U"
    by (auto simp: set_component dest: linked_rtrancl_in)
  from component_eq [OF assms h] show "component U (hd (component U c)) = component U c" .
qed

lemma same_head_iff:
  assumes "c \<in> set U" and "d \<in> set U"
  shows "hd (component U d) = hd (component U c) \<longleftrightarrow> (c, d) \<in> (linked U)\<^sup>*"
proof
  assume eq: "hd (component U d) = hd (component U c)"
  from hd_component(1) [OF assms(1)] assms(1)
  have "(c, hd (component U c)) \<in> (linked U)\<^sup>*" by (simp add: set_component)
  moreover from hd_component(1) [OF assms(2)] assms(2)
  have "(d, hd (component U d)) \<in> (linked U)\<^sup>*" by (simp add: set_component)
  then have "(hd (component U d), d) \<in> (linked U)\<^sup>*" by (rule linked_rtrancl_sym)
  ultimately show "(c, d) \<in> (linked U)\<^sup>*" using eq by (auto intro: rtrancl_trans)
next
  assume "(c, d) \<in> (linked U)\<^sup>*"
  with assms(1) have "d \<in> set (component U c)" by (simp add: set_component)
  from component_eq [OF assms(1) this] show "hd (component U d) = hd (component U c)" by simp
qed

text \<open>
  The labelling of \<open>ndi_label\<close>: the cells of the mask, and only these, carry a positive
  label; two of them carry the same label exactly when they are connected; and with one
  feature all of them are connected.
\<close>

lemma position_nth: "x \<in> set xs \<Longrightarrow> position xs x < length xs \<and> xs ! position xs x = x"
  by (induction xs) (auto simp: position_def)

lemma position_inj:
  assumes "x \<in> set xs" and "y \<in> set xs" and "position xs x = position xs y"
  shows "x = y"
proof -
  have "x = xs ! position xs x" using position_nth [OF assms(1)] by simp
  also have "\<dots> = xs ! position xs y" by (simp only: assms(3))
  also have "\<dots> = y" using position_nth [OF assms(2)] by simp
  finally show ?thesis .
qed

lemma in_bounds_Cons:
  "in_bounds (n # ns) idx \<longleftrightarrow> (\<exists>i idx'. idx = i # idx' \<and> i < n \<and> in_bounds ns idx')"
  by (auto simp: in_bounds_def list_all2_Cons2)

lemma set_all_indices: "set (all_indices sh) = {idx. in_bounds sh idx}"
proof (induction sh)
  case Nil
  show ?case by (auto simp: in_bounds_def)
next
  case (Cons n ns)
  show ?case
  proof (intro set_eqI iffI)
    fix idx assume "idx \<in> set (all_indices (n # ns))"
    then obtain i idx' where "i < n" "idx' \<in> set (all_indices ns)" "idx = i # idx'" by auto
    with Cons.IH show "idx \<in> {idx. in_bounds (n # ns) idx}" by (simp add: in_bounds_Cons)
  next
    fix idx assume "idx \<in> {idx. in_bounds (n # ns) idx}"
    then obtain i idx' where "idx = i # idx'" "i < n" "in_bounds ns idx'"
      by (auto simp: in_bounds_Cons)
    with Cons.IH show "idx \<in> set (all_indices (n # ns))" by auto
  qed
qed

lemma ndi_label_cells:
  assumes "U = filter input (all_indices sh)" and "ndi_label sh input = (labeled, num)"
  shows "shape labeled = sh"
    and "d \<notin> set U \<Longrightarrow> cell labeled d = 0"
    and "c \<in> set U \<Longrightarrow> cell labeled c \<noteq> 0"
    and "c \<in> set U \<Longrightarrow> d \<in> set U \<Longrightarrow>
       cell labeled d = cell labeled c \<longleftrightarrow> (c, d) \<in> (linked U)\<^sup>*"
    and "num = 1 \<Longrightarrow> c \<in> set U \<Longrightarrow> d \<in> set U \<Longrightarrow> (c, d) \<in> (linked U)\<^sup>*"
proof -
  define firsts where "firsts = filter (\<lambda>c. hd (component U c) = c) U"
  have lab: "labeled = \<lparr>shape = sh,
      cell = (\<lambda>idx. if idx \<in> set U then 1 + int (position firsts (hd (component U idx))) else 0)\<rparr>"
    and num: "num = length firsts"
    using assms(2) unfolding firsts_def assms(1) ndi_label_def Let_def by auto
  from lab show "shape labeled = sh" by simp
  from lab show "cell labeled d = 0" if "d \<notin> set U" using that by simp
  from lab show "cell labeled c \<noteq> 0" if "c \<in> set U" using that by simp
  have first: "hd (component U c) \<in> set firsts" if "c \<in> set U" for c
    using hd_component [OF that] by (simp add: firsts_def)
  show "cell labeled d = cell labeled c \<longleftrightarrow> (c, d) \<in> (linked U)\<^sup>*"
    if "c \<in> set U" "d \<in> set U"
  proof -
    from that lab have "cell labeled d = cell labeled c \<longleftrightarrow>
        position firsts (hd (component U d)) = position firsts (hd (component U c))"
      by simp
    also have "\<dots> \<longleftrightarrow> hd (component U d) = hd (component U c)"
      using position_inj [OF first [OF that(2)] first [OF that(1)]] by auto
    also have "\<dots> \<longleftrightarrow> (c, d) \<in> (linked U)\<^sup>*"
      by (rule same_head_iff [OF that])
    finally show ?thesis .
  qed
  show "(c, d) \<in> (linked U)\<^sup>*" if "num = 1" "c \<in> set U" "d \<in> set U"
  proof -
    from that(1) num obtain r where r: "firsts = [r]"
      by (cases firsts) auto
    with first [OF that(2)] first [OF that(3)]
    have "hd (component U d) = hd (component U c)" by simp
    with same_head_iff [OF that(2,3)] show ?thesis by simp
  qed
qed

subsection \<open>What \<open>fill\<close> replaces\<close>

text \<open>
  A coordinate that addresses a pixel makes \<open>labeled_matches[slice_coord]\<close> the label of
  that pixel, so the mask \<open>fill\<close> ends with is the component of the clicked pixel, or
  every cell of the old label without \<open>contiguous\<close>; and the data after the call differ
  from the data before exactly in the cells behind the mask.
\<close>

lemma select_Idx_all:
  assumes "select sh (map Idx cd) = Inr ps" and "length cd = length sh"
  shows "kept (map Idx cd) ps = [] \<and> embed (map Idx cd) ps j = map hd ps \<and>
     in_bounds sh (map hd ps)"
  using assms
proof (induction cd arbitrary: sh ps)
  case Nil
  then show ?case by (simp add: in_bounds_def)
next
  case (Cons k cd)
  from Cons.prems(2) obtain n ns where sh: "sh = n # ns" and len: "length cd = length ns"
    by (cases sh) auto
  from Cons.prems(1) sh obtain p ps' where
    p: "axis_sel n (Idx k) = Inr p" and ps': "select ns (map Idx cd) = Inr ps'"
    and ps: "ps = p # ps'"
    by (auto simp: bind_err_eq_Inr)
  from p obtain x where x: "p = [x]" "x < n"
    by (auto split: if_splits)
  from Cons.IH [OF ps' len] sh ps x show ?case
    by (simp add: in_bounds_Cons)
qed

lemma pixel_at_getitem:
  assumes "pixel_at (shape a) cd = Some c"
  shows "in_bounds (shape a) c \<and>
     (\<exists>v. getitem a (map Idx cd) = Inr v \<and> (\<forall>j. cell v j = cell a c))"
proof -
  from assms obtain ps where len: "length cd = length (shape a)"
    and ps: "select (shape a) (map Idx cd) = Inr ps" and c: "c = map hd ps"
    by (auto simp: pixel_at_def split: if_splits sum.splits)
  from select_Idx_all [OF ps len] c ps show ?thesis
    by (simp add: getitem_def)
qed

lemma fill_matches_component:
  assumes m: "fill_matches s labels click old_label = Inr matches"
    and cont: "contiguous s"
    and c: "pixel_at (shape labels) click = Some c" "cell labels c = old_label"
    and idx: "in_bounds (shape labels) idx"
  shows "matches idx \<longleftrightarrow>
     (c, idx) \<in> (linked (filter (\<lambda>i. cell labels i = old_label) (all_indices (shape labels))))\<^sup>*"
proof -
  let ?input = "\<lambda>i. cell labels i = old_label"
  define U where "U = filter ?input (all_indices (shape labels))"
  obtain labeled num where l: "ndi_label (shape labels) ?input = (labeled, num)"
    by (cases "ndi_label (shape labels) ?input") auto
  note lc = ndi_label_cells [OF U_def l]
  from pixel_at_getitem [OF c(1)] have cin: "in_bounds (shape labels) c" by simp
  from cin c(2) have cU: "c \<in> set U" by (simp add: U_def set_all_indices)
  have inU: "cell labels idx = old_label \<longleftrightarrow> idx \<in> set U"
    using idx by (simp add: U_def set_all_indices)
  have notU: "(c, idx) \<in> (linked U)\<^sup>* \<Longrightarrow> idx \<in> set U"
    using cU by (rule linked_rtrancl_in [rotated])
  have "matches idx \<longleftrightarrow> (c, idx) \<in> (linked U)\<^sup>*"
  proof (cases "num = 1")
    case True
    with m cont l have me: "matches = ?input"
      by (simp add: fill_matches_def)
    have "matches idx \<longleftrightarrow> cell labels idx = old_label" by (simp only: me)
    also have "\<dots> \<longleftrightarrow> idx \<in> set U" by (rule inU)
    also have "\<dots> \<longleftrightarrow> (c, idx) \<in> (linked U)\<^sup>*"
      using notU lc(5) [OF True cU] by blast
    finally show ?thesis .
  next
    case False
    from c(1) have len: "length click = length (shape labels)"
      by (simp add: pixel_at_def split: if_splits)
    from c(1) lc(1) have "pixel_at (shape labeled) click = Some c" by simp
    from pixel_at_getitem [OF this] obtain v where
      v: "getitem labeled (map Idx click) = Inr v" "\<And>j. cell v j = cell labeled c"
      by blast
    from m cont l False v(1)
    have me: "matches = (\<lambda>i. ?input i \<and> cell labeled i = cell v (drop (length click) i))"
      by (simp add: fill_matches_def)
    have "matches idx \<longleftrightarrow> cell labels idx = old_label \<and> cell labeled idx = cell labeled c"
      unfolding me v(2) ..
    also have "\<dots> \<longleftrightarrow> idx \<in> set U \<and> cell labeled idx = cell labeled c"
      by (simp only: inU)
    also have "\<dots> \<longleftrightarrow> (c, idx) \<in> (linked U)\<^sup>*"
      using notU lc(4) [OF cU] by blast
    finally show ?thesis .
  qed
  then show ?thesis by (simp only: U_def)
qed

lemma fill_matches_total:
  assumes "pixel_at (shape labels) click = Some c"
  shows "\<exists>matches. fill_matches s labels click old_label = Inr matches"
proof -
  let ?input = "\<lambda>i. cell labels i = old_label"
  obtain labeled num where l: "ndi_label (shape labels) ?input = (labeled, num)"
    by (cases "ndi_label (shape labels) ?input") auto
  from l have "shape labeled = shape labels" by (auto simp: ndi_label_def Let_def)
  with assms have "pixel_at (shape labeled) click = Some c" by simp
  from pixel_at_getitem [OF this] obtain v where "getitem labeled (map Idx click) = Inr v"
    by blast
  with l show ?thesis by (simp add: fill_matches_def Let_def)
qed

lemma fill_matches_replaced:
  assumes c: "pixel_at (shape labels) click = Some c" "cell labels c = old_label"
  shows "\<exists>matches. fill_matches s labels click old_label = Inr matches \<and>
     {j. in_bounds (shape labels) j \<and> matches j} =
       (if contiguous s
        then (linked (filter (\<lambda>j. cell labels j = old_label) (all_indices (shape labels))))\<^sup>* `` {c}
        else {j. in_bounds (shape labels) j \<and> cell labels j = old_label})"
proof -
  let ?U = "filter (\<lambda>j. cell labels j = old_label) (all_indices (shape labels))"
  from fill_matches_total [OF c(1)] obtain matches where
    m: "fill_matches s labels click old_label = Inr matches" by blast
  from pixel_at_getitem [OF c(1)] have cin: "in_bounds (shape labels) c" by simp
  with c(2) have cU: "c \<in> set ?U" by (simp add: set_all_indices)
  have "{j. in_bounds (shape labels) j \<and> matches j} = (linked ?U)\<^sup>* `` {c}" if cont: "contiguous s"
  proof (intro set_eqI iffI)
    fix j assume "j \<in> {j. in_bounds (shape labels) j \<and> matches j}"
    then have j: "in_bounds (shape labels) j" "matches j" by simp_all
    from fill_matches_component [OF m cont c j(1)] j(2) show "j \<in> (linked ?U)\<^sup>* `` {c}"
      by blast
  next
    fix j assume "j \<in> (linked ?U)\<^sup>* `` {c}"
    then have r: "(c, j) \<in> (linked ?U)\<^sup>*" by blast
    from linked_rtrancl_in [OF r cU] have j: "in_bounds (shape labels) j"
      by (simp add: set_all_indices)
    from fill_matches_component [OF m cont c j] r j
    show "j \<in> {j. in_bounds (shape labels) j \<and> matches j}" by blast
  qed
  moreover have "matches = (\<lambda>j. cell labels j = old_label)" if "\<not> contiguous s"
    using m that by (simp add: fill_matches_def)
  ultimately show ?thesis using m by auto
qed

lemma fill_data:
  assumes scope: "fill_scope s (map np_round coord) = Inr (labels, click)"
    and m: "fill_matches s labels click old_label = Inr matches"
    and loc: "scope_cells s = Inr loc"
  shows "cell (data (state_of (fill s coord old_label new_label))) idx =
     (if idx \<in> loc ` {j. in_bounds (shape labels) j \<and> matches j} then new_label
      else cell (data s) idx)"
proof (cases "n_dimensional s \<or> get_ndim s = 2")
  case True
  with scope loc have l: "labels = data s" "loc = (\<lambda>j. j)"
    by (simp_all add: fill_scope_def scope_cells_def)
  let ?s1 = "s\<lparr>data := assign_mask labels matches new_label\<rparr>"
  have "data (state_of (fill s coord old_label new_label)) = assign_mask labels matches new_label"
  proof (cases "set_view_slice ?s1")
    case (Inl e)
    with scope m True show ?thesis by (simp add: fill_def)
  next
    case (Inr s2)
    from set_view_slice_data [OF Inr] have "data s2 = assign_mask labels matches new_label"
      by simp
    with Inr scope m True show ?thesis by (simp add: fill_def)
  qed
  with l show ?thesis by (simp add: assign_mask_def)
next
  case False
  with scope loc have l: "labels = data_labels s" "view_cells s = Inr loc"
    by (auto simp: fill_scope_def scope_cells_def bind_err_eq_Inr)
  from scope m False
  have "data (state_of (fill s coord old_label new_label)) = through_view s matches new_label"
    by (simp add: fill_def)
  moreover have "set (map loc (filter matches (all_indices (shape (data_labels s))))) =
      loc ` {j. in_bounds (shape labels) j \<and> matches j}"
    using l(1) by (auto simp: set_all_indices)
  ultimately show ?thesis using l(2) by (simp add: through_view_def)
qed

text \<open>
  C2. Let \<open>labels\<close> be the array \<open>fill\<close> works on and \<open>click\<close> the coordinate of the
  clicked pixel in it: the data and the rounded coordinate when the whole volume is in
  scope, the displayed slice and the displayed entries of the rounded coordinate
  otherwise. When \<open>click\<close> addresses a pixel \<open>c\<close> of \<open>labels\<close> that carries \<open>old_label\<close>,
  the data \<open>fill\<close> leaves differ from the data before exactly as follows. With
  \<open>contiguous\<close>, the cells behind the connected component of \<open>c\<close> among the cells of
  \<open>labels\<close> that carry \<open>old_label\<close>, under the adjacency of the grid (4 neighbours in two
  dimensions, 6 in three), hold \<open>new_label\<close>; without \<open>contiguous\<close>, the cells behind
  every cell of \<open>labels\<close> that carries \<open>old_label\<close> do; every other cell of the data keeps
  its value. This is the state the call leaves whether it returns or raises; \<open>loc\<close> is
  the identity when the whole volume is in scope.
\<close>

theorem fill_replaces_component:
  assumes scope: "fill_scope s (map np_round coord) = Inr (labels, click)"
    and loc: "scope_cells s = Inr loc"
    and c: "pixel_at (shape labels) click = Some c"
    and old: "cell labels c = old_label"
  shows "cell (data (state_of (fill s coord old_label new_label))) idx =
     (if idx \<in> loc `
          (if contiguous s
           then (linked (filter (\<lambda>j. cell labels j = old_label) (all_indices (shape labels))))\<^sup>* `` {c}
           else {j. in_bounds (shape labels) j \<and> cell labels j = old_label})
      then new_label else cell (data s) idx)"
proof -
  from fill_matches_replaced [OF c old, of s] obtain matches where
    m: "fill_matches s labels click old_label = Inr matches" and
    r: "{j. in_bounds (shape labels) j \<and> matches j} =
       (if contiguous s
        then (linked (filter (\<lambda>j. cell labels j = old_label) (all_indices (shape labels))))\<^sup>* `` {c}
        else {j. in_bounds (shape labels) j \<and> cell labels j = old_label})"
    by blast
  from fill_data [OF scope m loc, of new_label idx] show ?thesis
    by (simp only: r)
qed

text \<open>
  The two-dimensional scenarios: on \<open>[[1, 1, 0], [1, 0, 0]]\<close> the call returns and yields
  \<open>[[5, 5, 0], [5, 0, 0]]\<close>, with and without \<open>contiguous\<close>, and \<open>(1, 0)\<close> is connected to
  the clicked pixel; on \<open>[[1, 0, 1]]\<close> it yields \<open>[[5, 0, 1]]\<close>, and \<open>(0, 2)\<close> is not. On the
  slice of \<open>ex_volume\<close> the clicked pixel of the slice is alone in its component, and the
  cell of the data behind it is the one that changes.
\<close>

theorem fill_replaces_component_witness:
  "fill_scope ex_labels (map np_round [0, 0]) = Inr (data ex_labels, [0, 0]) \<and>
   scope_cells ex_labels = Inr (\<lambda>j. j) \<and>
   pixel_at (shape (data ex_labels)) [0, 0] = Some [0, 0] \<and>
   cell (data ex_labels) [0, 0] = 1 \<and>
   raised (fill ex_labels [0, 0] 1 5) = None \<and>
   to_list2 (data (state_of (fill ex_labels [0, 0] 1 5))) = [[5, 5, 0], [5, 0, 0]] \<and>
   to_list2 (data (state_of (fill (ex_labels\<lparr>contiguous := False\<rparr>) [0, 0] 1 5))) =
     [[5, 5, 0], [5, 0, 0]] \<and>
   ([0, 0], [1, 0]) \<in> (linked (filter (\<lambda>j. cell (data ex_labels) j = 1)
                                 (all_indices (shape (data ex_labels)))))\<^sup>* \<and>
   to_list2 (data (state_of (fill ex_row [0, 0] 1 5))) = [[5, 0, 1]] \<and>
   ([0, 0], [0, 2]) \<notin> (linked (filter (\<lambda>j. cell (data ex_row) j = 1)
                                 (all_indices (shape (data ex_row)))))\<^sup>* \<and>
   fill_scope ex_volume (map np_round [0, 0, 0]) = Inr (data_labels ex_volume, [0, 0]) \<and>
   pixel_at (shape (data_labels ex_volume)) [0, 0] = Some [0, 0] \<and>
   cell (data_labels ex_volume) [0, 0] = 1 \<and>
   to_list3 (data (state_of (fill ex_volume [0, 0, 0] 1 5))) = [[[5, 3], [0, 0]]] \<and>
   (\<exists>loc. scope_cells ex_volume = Inr loc \<and>
      [0, 0, 0] \<in> loc ` ((linked (filter (\<lambda>j. cell (data_labels ex_volume) j = 1)
          (all_indices (shape (data_labels ex_volume)))))\<^sup>* `` {[0, 0]}))"
proof -
  have vsc: "fill_scope ex_volume (map np_round [0, 0, 0]) = Inr (data_labels ex_volume, [0, 0])"
    by (simp add: fill_scope_def ex_volume_def ex_labels_def get_ndim_def of_list3_def
        displayed_def)
  have "(case scope_cells ex_volume of Inl e \<Rightarrow> False | Inr loc \<Rightarrow> True)" by code_simp
  then obtain loc where vlc: "scope_cells ex_volume = Inr loc"
    by (cases "scope_cells ex_volume") simp_all
  have vpx: "pixel_at (shape (data_labels ex_volume)) [0, 0] = Some [0, 0]" by code_simp
  have vold: "cell (data_labels ex_volume) [0, 0] = 1" by code_simp
  have vev: "cell (data (state_of (fill ex_volume [0, 0, 0] 1 5))) [0, 0, 0] = 5"
    "cell (data ex_volume) [0, 0, 0] = 1" "contiguous ex_volume"
    by code_simp+
  from fill_replaces_component [OF vsc vlc vpx vold, of 5 "[0, 0, 0]"] vev
  have "[0, 0, 0] \<in> loc ` ((linked (filter (\<lambda>j. cell (data_labels ex_volume) j = 1)
          (all_indices (shape (data_labels ex_volume)))))\<^sup>* `` {[0, 0]})"
    by (simp split: if_splits)
  with vlc have vol: "\<exists>loc. scope_cells ex_volume = Inr loc \<and>
      [0, 0, 0] \<in> loc ` ((linked (filter (\<lambda>j. cell (data_labels ex_volume) j = 1)
          (all_indices (shape (data_labels ex_volume)))))\<^sup>* `` {[0, 0]})"
    by blast
  have vr: "to_list3 (data (state_of (fill ex_volume [0, 0, 0] 1 5))) = [[[5, 3], [0, 0]]]"
    by code_simp
  have sc: "fill_scope ex_labels (map np_round [0, 0]) = Inr (data ex_labels, [0, 0])"
    by (simp add: fill_scope_def ex_labels_def get_ndim_def)
  have lc: "scope_cells ex_labels = Inr (\<lambda>j. j)"
    by (simp add: scope_cells_def ex_labels_def get_ndim_def)
  have px: "pixel_at (shape (data ex_labels)) [0, 0] = Some [0, 0]" by code_simp
  have old: "cell (data ex_labels) [0, 0] = 1" by code_simp
  have ev: "cell (data (state_of (fill ex_labels [0, 0] 1 5))) [1, 0] = 5"
    "cell (data ex_labels) [1, 0] = 1" "contiguous ex_labels"
    by code_simp+
  from fill_replaces_component [OF sc lc px old, of 5 "[1, 0]"] ev
  have conn: "([0, 0], [1, 0]) \<in> (linked (filter (\<lambda>j. cell (data ex_labels) j = 1)
      (all_indices (shape (data ex_labels)))))\<^sup>*"
    by (simp split: if_splits)
  have sc': "fill_scope ex_row (map np_round [0, 0]) = Inr (data ex_row, [0, 0])"
    by (simp add: fill_scope_def ex_row_def ex_labels_def get_ndim_def of_list2_def)
  have lc': "scope_cells ex_row = Inr (\<lambda>j. j)"
    by (simp add: scope_cells_def ex_row_def ex_labels_def get_ndim_def of_list2_def)
  have px': "pixel_at (shape (data ex_row)) [0, 0] = Some [0, 0]" by code_simp
  have old': "cell (data ex_row) [0, 0] = 1" by code_simp
  have ev': "cell (data (state_of (fill ex_row [0, 0] 1 5))) [0, 2] = 1"
    "cell (data ex_row) [0, 2] = 1" "contiguous ex_row"
    by code_simp+
  from fill_replaces_component [OF sc' lc' px' old', of 5 "[0, 2]"] ev'
  have apart: "([0, 0], [0, 2]) \<notin> (linked (filter (\<lambda>j. cell (data ex_row) j = 1)
      (all_indices (shape (data ex_row)))))\<^sup>*"
    by (simp split: if_splits)
  have r: "raised (fill ex_labels [0, 0] 1 5) = None"
    "to_list2 (data (state_of (fill ex_labels [0, 0] 1 5))) = [[5, 5, 0], [5, 0, 0]]"
    "to_list2 (data (state_of (fill (ex_labels\<lparr>contiguous := False\<rparr>) [0, 0] 1 5))) =
       [[5, 5, 0], [5, 0, 0]]"
    "to_list2 (data (state_of (fill ex_row [0, 0] 1 5))) = [[5, 0, 1]]"
    by code_simp+
  from sc lc px old conn apart r vsc vpx vold vr vol show ?thesis by (intro conjI)
qed

text \<open>
  Stated for \<open>data[round(coord)]\<close>, the property fails when only a slice is in scope and
  the coordinate does not lie on the slice the layer shows: \<open>fill\<close> reads the displayed
  entries of the coordinate alone (line 394). In \<open>ex_stack\<close>, which shows the slice
  \<open>data[0]\<close>, the pixel \<open>(1, 0, 1)\<close> carries the label 1 and is alone in its component;
  \<open>fill((1, 0, 1), 1, 5)\<close> leaves it at 1 and sets the pixel \<open>(0, 0, 0)\<close> to 5.
\<close>

theorem fill_off_slice_coordinate:
  "map (cell (data ex_stack)) [[0, 0, 0], [1, 0, 1]] = [1, 1] \<and>
   component (filter (\<lambda>j. cell (data ex_stack) j = 1) (all_indices (shape (data ex_stack))))
     [1, 0, 1] = [[1, 0, 1]] \<and>
   map (cell (data (state_of (fill ex_stack [1, 0, 1] 1 5)))) [[0, 0, 0], [1, 0, 1]] = [5, 1]"
  by code_simp

subsection \<open>The scope of \<open>fill\<close>\<close>

text \<open>
  The slice \<open>_set_view_slice\<close> makes reads the data through \<open>view_cells\<close>. A \<open>fill\<close> on a
  slice never returns, and leaves every cell off the slice as it was: a cell whose
  coordinate on a non-displayed axis is not the current integer point of that axis keeps
  its value. With the whole volume in scope, \<open>fill\<close> returns whenever the coordinate
  addresses a pixel and the layer can be sliced.
\<close>

lemma indices_of_nth:
  assumes "indices_of d axes = Inr ix"
  shows "length ix = length axes \<and>
     (\<forall>k<length axes. axes ! k \<notin> set (displayed d) \<longrightarrow>
        (\<exists>i. round_point (point d ! (axes ! k)) = Inr i \<and> ix ! k = Idx i))"
  using assms
proof (induction axes arbitrary: ix)
  case Nil
  then show ?case by simp
next
  case (Cons axis axes)
  from Cons.prems obtain x xs where
    x: "(if axis \<in> set (displayed d) then Inr Full
         else bind_err (round_point (point d ! axis)) (\<lambda>i. Inr (Idx i))) = Inr x"
    and xs: "indices_of d axes = Inr xs" and ix: "ix = x # xs"
    by (auto simp: bind_err_eq_Inr)
  note ih = Cons.IH [OF xs]
  have "\<exists>i. round_point (point d ! ((axis # axes) ! k)) = Inr i \<and> ix ! k = Idx i"
    if "k < length (axis # axes)" "(axis # axes) ! k \<notin> set (displayed d)" for k
  proof (cases k)
    case 0
    with that x ix show ?thesis by (auto simp: bind_err_eq_Inr)
  next
    case (Suc k')
    with that ih ix show ?thesis by simp
  qed
  with ih ix show ?case by simp
qed


lemma embed_Idx_fixed:
  assumes "select sh ix = Inr ps" and "k < length ix" and "ix ! k = Idx i"
    and "k < length (embed ix ps j)"
  shows "int (embed ix ps j ! k) = (if 0 \<le> i then i else int (sh ! k) + i)"
  using assms
proof (induction sh ix arbitrary: ps k j rule: select.induct)
  case 1
  then show ?case by simp
next
  case (2 i "is")
  then show ?case by simp
next
  case (3 n ns)
  then show ?case by simp
next
  case (4 n ns x xs)
  from "4.prems"(1) obtain p ps' where
    p: "axis_sel n x = Inr p" and ps': "select ns xs = Inr ps'" and ps: "ps = p # ps'"
    by (auto simp: bind_err_eq_Inr)
  show ?case
  proof (cases k)
    case 0
    with "4.prems"(3) have x: "x = Idx i" by simp
    with p have "int (hd p) = (if 0 \<le> i then i else int n + i)"
      by (auto split: if_splits)
    with 0 x ps show ?thesis by simp
  next
    case (Suc k')
    with "4.prems"(2,3) have k': "k' < length xs" "xs ! k' = Idx i" by simp_all
    show ?thesis
    proof (cases x)
      case (Idx m)
      with "4.prems"(4) ps Suc have "k' < length (embed xs ps' j)" by simp
      from "4.IH" [OF ps' k' this] Idx ps Suc show ?thesis by simp
    next
      case Full
      with "4.prems"(4) ps Suc obtain y j' where j: "j = y # j'"
        by (cases j) auto
      with "4.prems"(4) ps Suc Full have "k' < length (embed xs ps' j')" by simp
      from "4.IH" [OF ps' k' this] Full ps Suc j show ?thesis by simp
    next
      case (Slice a b)
      with "4.prems"(4) ps Suc obtain y j' where j: "j = y # j'"
        by (cases j) auto
      with "4.prems"(4) ps Suc Slice have "k' < length (embed xs ps' j')" by simp
      from "4.IH" [OF ps' k' this] Slice ps Suc j show ?thesis by simp
    qed
  qed
qed

lemma view_cells_slice:
  assumes "set_view_slice s = Inr s'"
  shows "\<exists>loc. view_cells s = Inr loc \<and> (\<forall>j. cell (data_labels s') j = cell (data s) (loc j))"
proof -
  let ?axes = "displayed_order (dims s)"
  from assms obtain ix ps where ix: "indices (dims s) = Inr ix"
    and ps: "select (shape (data s)) ix = Inr ps"
    and perm: "is_perm (length (kept ix ps)) ?axes"
    and s': "s' = s\<lparr>data_labels := \<lparr>shape = map ((!) (map length (kept ix ps))) ?axes,
        cell = (\<lambda>j. cell (data s) (embed ix ps (map (\<lambda>m. j ! index_of ?axes m) [0..<length ?axes])))\<rparr>\<rparr>"
    by (auto simp: set_view_slice_def getitem_def transpose_nd_def bind_err_eq_Inr
        split: if_splits)
  from ix ps perm
  have "view_cells s = Inr (\<lambda>j. embed ix ps (map (\<lambda>m. j ! index_of ?axes m) [0..<length ?axes]))"
    by (simp add: view_cells_def Let_def)
  with s' show ?thesis by simp
qed

lemma fill_slice_data:
  assumes "\<not> (n_dimensional s \<or> get_ndim s = 2)"
  shows "raised (fill s coord old_label new_label) \<noteq> None"
    and "data (state_of (fill s coord old_label new_label)) = data s \<or>
       (\<exists>matches. data (state_of (fill s coord old_label new_label)) =
          through_view s matches new_label)"
  using assms by (auto simp: fill_def split: sum.splits prod.splits)

lemma fill_slice_frame:
  assumes slice: "\<not> (n_dimensional s \<or> get_ndim s = 2)"
    and k: "k < ndim (dims s)" "k \<notin> set (displayed (dims s))" "k < length idx"
    and off: "\<forall>x. point (dims s) ! k = Fin x \<longrightarrow>
       int (idx ! k) \<noteq> (if 0 \<le> np_round x then np_round x
                          else int (shape (data s) ! k) + np_round x)"
  shows "cell (data (state_of (fill s coord old_label new_label))) idx = cell (data s) idx"
proof -
  have "cell (through_view s matches new_label) idx = cell (data s) idx" for matches
  proof (cases "view_cells s")
    case (Inl e)
    then show ?thesis by (simp add: through_view_def)
  next
    case (Inr loc)
    then obtain ix ps where ix: "indices (dims s) = Inr ix"
      and ps: "select (shape (data s)) ix = Inr ps"
      and loc: "loc = (\<lambda>j. embed ix ps (map (\<lambda>m. j ! index_of (displayed_order (dims s)) m)
                        [0..<length (displayed_order (dims s))]))"
      by (auto simp: view_cells_def bind_err_eq_Inr Let_def split: if_splits)
    from indices_of_nth [OF ix [unfolded indices_def]] k(1,2) obtain i where
      len: "length ix = ndim (dims s)" and
      i: "round_point (point (dims s) ! k) = Inr i" "ix ! k = Idx i"
      by auto
    from i(1) obtain x where x: "point (dims s) ! k = Fin x" "i = np_round x"
      by (cases "point (dims s) ! k") auto
    have "idx \<noteq> loc j" for j
    proof
      assume e: "idx = loc j"
      with k(3) loc have "k < length (embed ix ps (map (\<lambda>m. j ! index_of (displayed_order (dims s)) m)
                        [0..<length (displayed_order (dims s))]))" by simp
      from embed_Idx_fixed [OF ps _ i(2) this] k(1) len e loc
      have "int (idx ! k) = (if 0 \<le> i then i else int (shape (data s) ! k) + i)" by simp
      with x(2) have "int (idx ! k) = (if 0 \<le> np_round x then np_round x
          else int (shape (data s) ! k) + np_round x)"
        by simp
      with off x(1) show False by blast
    qed
    then have "idx \<notin> set (map loc (filter matches (all_indices (shape (data_labels s)))))"
      by auto
    with Inr show ?thesis by (simp add: through_view_def)
  qed
  with fill_slice_data(2) [OF slice, of coord old_label new_label] show ?thesis by auto
qed

lemma fill_whole_returns:
  assumes "n_dimensional s \<or> get_ndim s = 2"
    and "pixel_at (shape (data s)) (map np_round coord) = Some c"
    and "set_view_slice s = Inr s0"
  shows "raised (fill s coord old_label new_label) = None"
proof -
  from assms(1) have scope: "fill_scope s (map np_round coord) = Inr (data s, map np_round coord)"
    by (simp add: fill_scope_def)
  from fill_matches_total [OF assms(2)] obtain matches where
    m: "fill_matches s (data s) (map np_round coord) old_label = Inr matches" by blast
  have "shape (assign_mask (data s) matches new_label) = shape (data s)"
    by (simp add: assign_mask_def)
  with assms(3) obtain s2 where
    "set_view_slice (s\<lparr>data := assign_mask (data s) matches new_label\<rparr>) = Inr s2"
    by (auto simp: set_view_slice_def getitem_def transpose_nd_def bind_err_eq_Inr split: if_splits)
  with scope m assms(1) show ?thesis by (simp add: fill_def)
qed

text \<open>
  C6. A \<open>fill\<close> on a slice does not complete. In \<open>ex_volume\<close>, a volume of shape
  \<open>(1, 2, 2)\<close> that is not n-dimensional, \<open>fill((0, 0, 0), 1, 5)\<close> changes the clicked
  pixel through the view, so that \<open>data[0]\<close> is \<open>[[5, 3], [0, 0]]\<close>, and then raises
  \<open>AttributeError\<close> at the statement that is to write the slice back (line 411), before
  the re-slice; so it does with the axis order \<open>[0, 1, 2]\<close> and on \<open>ex_volume_wide\<close>. The
  same call on the same data with \<open>n_dimensional\<close> set returns.
\<close>

theorem fill_slice_scoped_raises:
  "raised (fill ex_volume [0, 0, 0] 1 5) = Some AttributeError \<and>
   to_list3 (data (state_of (fill ex_volume [0, 0, 0] 1 5))) = [[[5, 3], [0, 0]]] \<and>
   raised (fill (ex_volume\<lparr>dims := (dims ex_volume)\<lparr>order := [0, 1, 2]\<rparr>,
        data_labels := of_list2 [[1, 3], [0, 0]]\<rparr>) [0, 0, 0] 1 5) = Some AttributeError \<and>
   raised (fill ex_volume_wide [0, 0, 0] 1 5) = Some AttributeError \<and>
   raised (fill (ex_volume\<lparr>n_dimensional := True\<rparr>) [0, 0, 0] 1 5) = None"
  by code_simp

end
